theory Spec2Isabelle
  imports Complex_Main "HOL-Library.Monad_Syntax"
begin

section \<open>The micrograd engine (engine.c): data model\<close>

text \<open>
  The engine of \<^verbatim>\<open>engine.c\<close> builds a graph of heap-allocated \<^verbatim>\<open>Value\<close> structs that
  point at each other and mutates their \<^verbatim>\<open>grad\<close> fields during the reverse pass.  Several
  parents may point at the same child, so the model keeps an explicit store.

  \<^item> A pointer \<^verbatim>\<open>Value *\<close> is an address, the index of the struct in the store; the store is
    the list of all structs allocated so far, and \<^verbatim>\<open>malloc\<close> appends to it.
  \<^item> The C type \<^verbatim>\<open>float\<close> is modelled by the reals: rounding, infinities and NaN are outside
    the model.
  \<^item> The function pointer \<^verbatim>\<open>reverse\<close> of a struct is a tag naming one of the four reverse
    functions, or \<open>None\<close> for \<^verbatim>\<open>NULL\<close>.
  \<^item> The \<^verbatim>\<open>children\<close> array of a struct is the list of its entries (\<^verbatim>\<open>NULL\<close> is the empty
    list); \<^verbatim>\<open>n_children\<close> is kept as the separate field that it is in C.
  \<^item> Undefined behaviour of the C program (dereferencing an address that is not allocated,
    indexing past the end of \<^verbatim>\<open>children\<close>, writing past \<^verbatim>\<open>MAX_DAG_SIZE\<close>) is the result
    \<open>None\<close>.
  \<^item> \<^verbatim>\<open>powf\<close>, \<^verbatim>\<open>pow\<close> and \<^verbatim>\<open>log\<close> come from the C library, not from this program; they
    are parameters of the model (the record \<open>libm\<close>).

  \<^verbatim>\<open>engine.c\<close> holds several successive states of the program; the model is that of the last
  one, the only one with the whole engine (\<^verbatim>\<open>build_dag\<close>, \<^verbatim>\<open>reverse\<close>, the four reverse
  functions and the six operators).  \<^verbatim>\<open>print\<close> and \<^verbatim>\<open>main\<close> only do output and are left out;
  the program of \<^verbatim>\<open>main\<close> is the scenario of claim C3.  The names are those of the source,
  but for the field \<^verbatim>\<open>reverse\<close> of the struct, which is \<open>reverse_ptr\<close> here (\<open>reverse\<close> is the
  function), the parameter \<^verbatim>\<open>root\<close> of \<^verbatim>\<open>reverse\<close>, which is \<open>rt\<close>, and \<^verbatim>\<open>divide\<close>,
  which is \<open>divide_op\<close>.
\<close>

type_synonym addr = nat

datatype revfn = AddReverse | MulReverse | PwrReverse | ReluReverse

record Value =
  data :: real
  grad :: real
  children :: "addr list"
  n_children :: nat
  reverse_ptr :: "revfn option"

type_synonym heap = "Value list"

record libm =
  libm_powf :: "real \<Rightarrow> real \<Rightarrow> real"
  libm_pow :: "real \<Rightarrow> real \<Rightarrow> real"
  libm_log :: "real \<Rightarrow> real"

definition MIN_RANGE :: real where
  "MIN_RANGE = - 10.0"

definition MAX_RANGE :: real where
  "MAX_RANGE = 10"

definition MAX_DAG_SIZE :: nat where
  "MAX_DAG_SIZE = 1000"

subsection \<open>Store access\<close>

text \<open>\<open>deref h p\<close> reads the struct behind \<open>p\<close>; it fails on an address that is not allocated.\<close>

definition deref :: "heap \<Rightarrow> addr \<Rightarrow> Value option" where
  "deref h p = (if p < length h then Some (h ! p) else None)"

text \<open>\<open>child h c i\<close> is \<^verbatim>\<open>c->children[i]\<close>.\<close>

definition child :: "heap \<Rightarrow> addr \<Rightarrow> nat \<Rightarrow> addr option" where
  "child h c i = do {
     v \<leftarrow> deref h c;
     if i < length (children v) then Some (children v ! i) else None }"

text \<open>\<open>grad_add p x h\<close> is \<^verbatim>\<open>p->grad += x\<close>.\<close>

definition grad_add :: "addr \<Rightarrow> real \<Rightarrow> heap \<Rightarrow> heap option" where
  "grad_add p x h = do {
     v \<leftarrow> deref h p;
     Some (h[p := v\<lparr>grad := grad v + x\<rparr>]) }"

subsection \<open>Constructor and gradient clipping\<close>

definition defaultValue :: "real \<Rightarrow> heap \<Rightarrow> addr \<times> heap" where
  "defaultValue x h =
     (length h,
      h @ [\<lparr>data = x, grad = 0, children = [], n_children = 0, reverse_ptr = None\<rparr>])"

text \<open>
  \<^verbatim>\<open>grad_clip\<close> makes the two comparisons of the source, in their order.  In C both are false
  when the gradient is a NaN, which \<^verbatim>\<open>grad_clip\<close> therefore leaves as it is; the reals have no
  NaN, so what is proved of \<open>grad_clip\<close> here speaks of gradients that are numbers.
\<close>

definition grad_clip :: "addr \<Rightarrow> heap \<Rightarrow> heap option" where
  "grad_clip obj h = do {
     v \<leftarrow> deref h obj;
     Some (if grad v < MIN_RANGE then h[obj := v\<lparr>grad := MIN_RANGE\<rparr>]
           else if grad v > MAX_RANGE then h[obj := v\<lparr>grad := MAX_RANGE\<rparr>]
           else h) }"

section \<open>Topological sort\<close>

text \<open>
  The arrays \<^verbatim>\<open>dag\<close> and \<^verbatim>\<open>visited\<close> are only ever written at their current size, which is
  then incremented; the model keeps the written prefix of each as a list, so that
  \<^verbatim>\<open>*dag_size\<close> is \<open>length dag\<close> and \<^verbatim>\<open>*len_visited\<close> is \<open>length visited\<close>.  The membership
  loop of \<^verbatim>\<open>build_dag\<close> runs over \<^verbatim>\<open>i < *dag_size\<close>, that is over the first \<open>length dag\<close>
  entries of \<^verbatim>\<open>visited\<close>.  \<open>build_dag_loop\<close> is the \<^verbatim>\<open>for\<close> loop over the children, from
  index \<open>i\<close> on.
\<close>

function build_dag :: "heap \<Rightarrow> addr \<Rightarrow> addr list \<times> addr list \<Rightarrow> (addr list \<times> addr list) option"
  and build_dag_loop ::
    "heap \<Rightarrow> addr \<Rightarrow> nat \<Rightarrow> addr list \<times> addr list \<Rightarrow> (addr list \<times> addr list) option"
where
  "build_dag h val (dag, visited) =
     (if val \<in> set (take (length dag) visited) then Some (dag, visited)
      else if MAX_DAG_SIZE \<le> length visited then None
      else (case build_dag_loop h val 0 (dag, visited @ [val]) of
              None \<Rightarrow> None
            | Some (dag', visited') \<Rightarrow>
                if MAX_DAG_SIZE \<le> length dag' then None
                else Some (dag' @ [val], visited')))"
| "build_dag_loop h val i (dag, visited) =
     (if \<not> val < length h then None
      else if i < n_children (h ! val) then
        (if \<not> i < length (children (h ! val)) then None
         else (case build_dag h (children (h ! val) ! i) (dag, visited) of
                 None \<Rightarrow> None
               | Some st' \<Rightarrow> build_dag_loop h val (i + 1) st'))
      else Some (dag, visited))"
  by pat_completeness auto

text \<open>
  The recursion ends on every store, cyclic ones included: each call that gets past the
  membership test writes one more entry of \<^verbatim>\<open>visited\<close>, and the write past
  \<^verbatim>\<open>MAX_DAG_SIZE\<close> is the failure \<open>None\<close>.  The termination proof needs that a call never
  shrinks \<^verbatim>\<open>visited\<close>.
\<close>

lemma build_dag_visited_mono:
  "build_dag_build_dag_loop_dom (Inl (h, val, st)) \<Longrightarrow> build_dag h val st = Some st' \<Longrightarrow>
     length (snd st) \<le> length (snd st')"
  "build_dag_build_dag_loop_dom (Inr (h, val, i, st)) \<Longrightarrow>
     build_dag_loop h val i st = Some st' \<Longrightarrow> length (snd st) \<le> length (snd st')"
proof (induction h val st and h val i st arbitrary: st' and st'
    rule: build_dag_build_dag_loop.pinduct)
  case (1 h val dag visited)
  show ?case
  proof (cases "val \<in> set (take (length dag) visited)")
    case True
    with 1(1,3) show ?thesis by (simp add: build_dag.psimps)
  next
    case False
    note nv = this
    show ?thesis
    proof (cases "MAX_DAG_SIZE \<le> length visited")
      case True
      with nv 1(1,3) show ?thesis by (simp add: build_dag.psimps)
    next
      case False
      with nv 1(1,3) obtain d' v' where
        r: "build_dag_loop h val 0 (dag, visited @ [val]) = Some (d', v')" and
        s: "st' = (d' @ [val], v')"
        by (simp add: build_dag.psimps split: option.splits prod.splits if_splits)
      from 1(2)[OF nv False r] s show ?thesis by simp
    qed
  qed
next
  case (2 h val i dag visited)
  show ?case
  proof (cases "val < length h \<and> i < n_children (h ! val)")
    case False
    with 2(1,4) show ?thesis by (auto simp: build_dag_loop.psimps split: if_splits)
  next
    case True
    hence a: "val < length h" "i < n_children (h ! val)" by auto
    with 2(1,4) have b: "i < length (children (h ! val))"
      by (auto simp: build_dag_loop.psimps split: if_splits)
    with a 2(1,4) obtain st1 where
      r: "build_dag h (children (h ! val) ! i) (dag, visited) = Some st1" and
      s: "build_dag_loop h val (i + 1) st1 = Some st'"
      by (auto simp: build_dag_loop.psimps split: option.splits)
    have n1: "\<not> \<not> val < length h" using a by simp
    have n2: "\<not> \<not> i < length (children (h ! val))" using b by simp
    from 2(2)[OF n1 a(2) n2 r] have "length visited \<le> length (snd st1)" by simp
    moreover from 2(3)[OF n1 a(2) n2 r s] have "length (snd st1) \<le> length (snd st')" .
    ultimately show ?thesis by simp
  qed
qed

termination build_dag
proof (relation
    "measures [\<lambda>x. case x of Inl (h, val, (dag, visited)) \<Rightarrow> MAX_DAG_SIZE - length visited
                         | Inr (h, val, i, (dag, visited)) \<Rightarrow> MAX_DAG_SIZE - length visited,
               \<lambda>x. case x of Inl _ \<Rightarrow> 0
                         | Inr (h, val, i, st) \<Rightarrow> Suc (n_children (h ! val) - i)]",
    goal_cases)
  case 1
  show ?case by simp
next
  case 2
  then show ?case by auto
next
  case 3
  then show ?case by auto
next
  case (4 h val i dag visited x2)
  then show ?case
    using build_dag_visited_mono(1)[of h "children (h ! val) ! i" "(dag, visited)" x2]
    by (cases x2) auto
qed

declare build_dag.simps [simp del] build_dag_loop.simps [simp del]

section \<open>Reverse pass\<close>

text \<open>
  Each reverse function re-reads \<^verbatim>\<open>c->children[i]\<close> and \<^verbatim>\<open>c->grad\<close> from the store at the
  point where the C statement reads them, so that aliasing between \<open>c\<close> and its children, and
  between the two children, is accounted for.
\<close>

definition add_reverse :: "addr \<Rightarrow> heap \<Rightarrow> heap option" where
  "add_reverse c h = do {
     c0 \<leftarrow> child h c 0;
     vc \<leftarrow> deref h c;
     h1 \<leftarrow> grad_add c0 (grad vc) h;
     c1 \<leftarrow> child h1 c 1;
     vc1 \<leftarrow> deref h1 c;
     h2 \<leftarrow> grad_add c1 (grad vc1) h1;
     a \<leftarrow> child h2 c 0;
     h3 \<leftarrow> grad_clip a h2;
     b \<leftarrow> child h3 c 1;
     grad_clip b h3 }"

definition mul_reverse :: "addr \<Rightarrow> heap \<Rightarrow> heap option" where
  "mul_reverse c h = do {
     c0 \<leftarrow> child h c 0;
     vc \<leftarrow> deref h c;
     c1 \<leftarrow> child h c 1;
     v1 \<leftarrow> deref h c1;
     h1 \<leftarrow> grad_add c0 (grad vc * data v1) h;
     c1' \<leftarrow> child h1 c 1;
     vc' \<leftarrow> deref h1 c;
     c0' \<leftarrow> child h1 c 0;
     v0 \<leftarrow> deref h1 c0';
     h2 \<leftarrow> grad_add c1' (grad vc' * data v0) h1;
     a \<leftarrow> child h2 c 0;
     h3 \<leftarrow> grad_clip a h2;
     b \<leftarrow> child h3 c 1;
     grad_clip b h3 }"

definition pwr_reverse :: "libm \<Rightarrow> addr \<Rightarrow> heap \<Rightarrow> heap option" where
  "pwr_reverse M c h = do {
     a \<leftarrow> child h c 0;
     b \<leftarrow> child h c 1;
     va \<leftarrow> deref h a;
     vb \<leftarrow> deref h b;
     vc \<leftarrow> deref h c;
     h1 \<leftarrow> grad_add a (data vb * libm_pow M (data va) (data vb - 1) * grad vc) h;
     vb1 \<leftarrow> deref h1 b;
     h2 \<leftarrow> (if data vb1 > 0 then do {
              va1 \<leftarrow> deref h1 a;
              vc1 \<leftarrow> deref h1 c;
              grad_add b (libm_log M (data va1) * data vc1 + grad vc1) h1 }
            else Some h1);
     c0 \<leftarrow> child h2 c 0;
     h3 \<leftarrow> grad_clip c0 h2;
     c1 \<leftarrow> child h3 c 1;
     grad_clip c1 h3 }"

definition relu_reverse :: "addr \<Rightarrow> heap \<Rightarrow> heap option" where
  "relu_reverse c h = do {
     a \<leftarrow> child h c 0;
     va \<leftarrow> deref h a;
     vc \<leftarrow> deref h c;
     h1 \<leftarrow> grad_add a (if data va > 0 then grad vc else 0) h;
     grad_clip a h1 }"

text \<open>The call through the function pointer \<^verbatim>\<open>dag[i]->reverse(dag[i])\<close>.\<close>

fun call_reverse :: "libm \<Rightarrow> revfn \<Rightarrow> addr \<Rightarrow> heap \<Rightarrow> heap option" where
  "call_reverse M AddReverse c h = add_reverse c h"
| "call_reverse M MulReverse c h = mul_reverse c h"
| "call_reverse M PwrReverse c h = pwr_reverse M c h"
| "call_reverse M ReluReverse c h = relu_reverse c h"

text \<open>
  The loop \<^verbatim>\<open>for (i = dag_size - 1; i >= 0; i--)\<close> of \<^verbatim>\<open>reverse\<close>, over the entries of
  \<^verbatim>\<open>dag\<close> from the last to the first: \<open>reverse_loop\<close> takes them in that order.
\<close>

fun reverse_loop :: "libm \<Rightarrow> addr list \<Rightarrow> heap \<Rightarrow> heap option" where
  "reverse_loop M [] h = Some h"
| "reverse_loop M (v # vs) h = do {
     n \<leftarrow> deref h v;
     (case reverse_ptr n of
        None \<Rightarrow> reverse_loop M vs h
      | Some f \<Rightarrow> do { h' \<leftarrow> call_reverse M f v h; reverse_loop M vs h' }) }"

definition reverse :: "libm \<Rightarrow> addr \<Rightarrow> heap \<Rightarrow> heap option" where
  "reverse M rt h = do {
     (dag, visited) \<leftarrow> build_dag h rt ([], []);
     vr \<leftarrow> deref h rt;
     reverse_loop M (rev dag) (h[rt := vr\<lparr>grad := 1\<rparr>]) }"

section \<open>Operators\<close>

text \<open>
  An operator allocates its result with \<^verbatim>\<open>defaultValue(0)\<close> and then fills in the fields.
  The operand pointers are those of the caller, so they are looked up in the store of the
  call.
\<close>

definition add :: "addr \<Rightarrow> addr \<Rightarrow> heap \<Rightarrow> (addr \<times> heap) option" where
  "add a b h = do {
     va \<leftarrow> deref h a;
     vb \<leftarrow> deref h b;
     let (res, h1) = defaultValue 0 h;
     Some (res, h1[res := (h1 ! res)\<lparr>data := data va + data vb, grad := 0,
                     children := [a, b], n_children := 2,
                     reverse_ptr := Some AddReverse\<rparr>]) }"

definition sub :: "addr \<Rightarrow> addr \<Rightarrow> heap \<Rightarrow> (addr \<times> heap) option" where
  "sub a b h = do {
     vb \<leftarrow> deref h b;
     let (negB, h1) = defaultValue (- data vb) h;
     add a negB h1 }"

definition mul :: "addr \<Rightarrow> addr \<Rightarrow> heap \<Rightarrow> (addr \<times> heap) option" where
  "mul a b h = do {
     va \<leftarrow> deref h a;
     vb \<leftarrow> deref h b;
     let (res, h1) = defaultValue 0 h;
     Some (res, h1[res := (h1 ! res)\<lparr>data := data va * data vb, grad := 0,
                     children := [a, b], n_children := 2,
                     reverse_ptr := Some MulReverse\<rparr>]) }"

definition pwr :: "libm \<Rightarrow> addr \<Rightarrow> addr \<Rightarrow> heap \<Rightarrow> (addr \<times> heap) option" where
  "pwr M a b h = do {
     va \<leftarrow> deref h a;
     vb \<leftarrow> deref h b;
     let (res, h1) = defaultValue 0 h;
     Some (res, h1[res := (h1 ! res)\<lparr>data := libm_powf M (data va) (data vb), grad := 0,
                     children := [a, b], n_children := 2,
                     reverse_ptr := Some PwrReverse\<rparr>]) }"

text \<open>\<^verbatim>\<open>divide\<close> of the source; \<open>divide\<close> is the division of HOL, hence the name \<open>divide_op\<close>.\<close>

definition divide_op :: "libm \<Rightarrow> addr \<Rightarrow> addr \<Rightarrow> heap \<Rightarrow> (addr \<times> heap) option" where
  "divide_op M a b h = do {
     let (minus_one, h1) = defaultValue (- 1) h;
     (reciprocal, h2) \<leftarrow> pwr M b minus_one h1;
     mul a reciprocal h2 }"

definition relu :: "addr \<Rightarrow> heap \<Rightarrow> (addr \<times> heap) option" where
  "relu a h = do {
     va \<leftarrow> deref h a;
     let (res, h1) = defaultValue 0 h;
     Some (res, h1[res := (h1 ! res)\<lparr>data := (if data va > 0 then data va else 0), grad := 0,
                     children := [a], n_children := 1,
                     reverse_ptr := Some ReluReverse\<rparr>]) }"

section \<open>Notions used to state the properties\<close>

text \<open>
  The value-level clamp that \<open>grad_clip\<close> applies to a gradient, and the store in which one
  gradient has been replaced.
\<close>

definition clamp :: "real \<Rightarrow> real" where
  "clamp g = (if g < MIN_RANGE then MIN_RANGE else if g > MAX_RANGE then MAX_RANGE else g)"

definition upd_grad :: "addr \<Rightarrow> (real \<Rightarrow> real) \<Rightarrow> heap \<Rightarrow> heap" where
  "upd_grad p f h = h[p := (h ! p)\<lparr>grad := f (grad (h ! p))\<rparr>]"

text \<open>The forward graph of a store: every field of every struct except \<^verbatim>\<open>grad\<close>.\<close>

definition skeleton :: "heap \<Rightarrow> heap" where
  "skeleton h = map (\<lambda>v. v\<lparr>grad := 0\<rparr>) h"

text \<open>
  A store is well formed when every child pointer of a struct points at a struct allocated
  before it.  The operators only ever build such stores, and such a store is acyclic.
\<close>

definition wf_heap :: "heap \<Rightarrow> bool" where
  "wf_heap h = list_all (\<lambda>(p, v). list_all (\<lambda>q. q < p) (children v)) (enumerate 0 h)"

text \<open>
  A sequence of nodes has the operands first when every entry is preceded by all the
  operands of its node.
\<close>

definition operands_first :: "heap \<Rightarrow> addr list \<Rightarrow> bool" where
  "operands_first h dag =
     (\<forall>k < length dag. \<forall>i < n_children (h ! (dag ! k)).
        children (h ! (dag ! k)) ! i \<in> set (take k dag))"

text \<open>
  The real functions that the C library computes (up to rounding) on a positive base; they
  instantiate the parameter \<open>libm\<close> where a closed statement needs one.
\<close>

definition libm_real :: libm where
  "libm_real = \<lparr>libm_powf = (powr), libm_pow = (powr), libm_log = ln\<rparr>"

text \<open>
  The specification's reading of division, word for word:
  \<^verbatim>\<open>divide(a,b) = multiply(a, power(b, leaf(-1)))\<close>.
\<close>

definition divide_spec :: "libm \<Rightarrow> addr \<Rightarrow> addr \<Rightarrow> heap \<Rightarrow> (addr \<times> heap) option" where
  "divide_spec M a b h =
     (case defaultValue (- 1) h of
        (l, h1) \<Rightarrow> (case pwr M b l h1 of
                      None \<Rightarrow> None
                    | Some (p, h2) \<Rightarrow> mul a p h2))"

text \<open>
  The reverse pass as claim C6 words it, to be compared with the one of the source: each
  single update \<^verbatim>\<open>p->grad += t\<close> is followed at once by \<^verbatim>\<open>grad_clip(p)\<close>, before the next
  update of the same reverse function is made.  The sorter, the seed and the loop are those
  of \<^verbatim>\<open>reverse\<close>; \<^verbatim>\<open>relu_reverse\<close> makes one update only and is its own per-update form.
\<close>

definition add_reverse_per_update :: "addr \<Rightarrow> heap \<Rightarrow> heap option" where
  "add_reverse_per_update c h = do {
     c0 \<leftarrow> child h c 0;
     vc \<leftarrow> deref h c;
     h1 \<leftarrow> grad_add c0 (grad vc) h;
     h2 \<leftarrow> grad_clip c0 h1;
     c1 \<leftarrow> child h2 c 1;
     vc1 \<leftarrow> deref h2 c;
     h3 \<leftarrow> grad_add c1 (grad vc1) h2;
     grad_clip c1 h3 }"

definition mul_reverse_per_update :: "addr \<Rightarrow> heap \<Rightarrow> heap option" where
  "mul_reverse_per_update c h = do {
     c0 \<leftarrow> child h c 0;
     vc \<leftarrow> deref h c;
     c1 \<leftarrow> child h c 1;
     v1 \<leftarrow> deref h c1;
     h1 \<leftarrow> grad_add c0 (grad vc * data v1) h;
     h2 \<leftarrow> grad_clip c0 h1;
     c1' \<leftarrow> child h2 c 1;
     vc' \<leftarrow> deref h2 c;
     c0' \<leftarrow> child h2 c 0;
     v0 \<leftarrow> deref h2 c0';
     h3 \<leftarrow> grad_add c1' (grad vc' * data v0) h2;
     grad_clip c1' h3 }"

definition pwr_reverse_per_update :: "libm \<Rightarrow> addr \<Rightarrow> heap \<Rightarrow> heap option" where
  "pwr_reverse_per_update M c h = do {
     a \<leftarrow> child h c 0;
     b \<leftarrow> child h c 1;
     va \<leftarrow> deref h a;
     vb \<leftarrow> deref h b;
     vc \<leftarrow> deref h c;
     h1 \<leftarrow> grad_add a (data vb * libm_pow M (data va) (data vb - 1) * grad vc) h;
     h2 \<leftarrow> grad_clip a h1;
     vb1 \<leftarrow> deref h2 b;
     h3 \<leftarrow> (if data vb1 > 0 then do {
              va1 \<leftarrow> deref h2 a;
              vc1 \<leftarrow> deref h2 c;
              grad_add b (libm_log M (data va1) * data vc1 + grad vc1) h2 }
            else Some h2);
     grad_clip b h3 }"

fun call_reverse_per_update :: "libm \<Rightarrow> revfn \<Rightarrow> addr \<Rightarrow> heap \<Rightarrow> heap option" where
  "call_reverse_per_update M AddReverse c h = add_reverse_per_update c h"
| "call_reverse_per_update M MulReverse c h = mul_reverse_per_update c h"
| "call_reverse_per_update M PwrReverse c h = pwr_reverse_per_update M c h"
| "call_reverse_per_update M ReluReverse c h = relu_reverse c h"

fun reverse_loop_per_update :: "libm \<Rightarrow> addr list \<Rightarrow> heap \<Rightarrow> heap option" where
  "reverse_loop_per_update M [] h = Some h"
| "reverse_loop_per_update M (v # vs) h = do {
     n \<leftarrow> deref h v;
     (case reverse_ptr n of
        None \<Rightarrow> reverse_loop_per_update M vs h
      | Some f \<Rightarrow> do { h' \<leftarrow> call_reverse_per_update M f v h;
                       reverse_loop_per_update M vs h' }) }"

definition reverse_per_update :: "libm \<Rightarrow> addr \<Rightarrow> heap \<Rightarrow> heap option" where
  "reverse_per_update M rt h = do {
     (dag, visited) \<leftarrow> build_dag h rt ([], []);
     vr \<leftarrow> deref h rt;
     reverse_loop_per_update M (rev dag) (h[rt := vr\<lparr>grad := 1\<rparr>]) }"

text \<open>
  A test program with a power node over a shared operand: \<open>x = leaf(2)\<close>, \<open>p = pwr(x, x)\<close>,
  \<open>q = mul(p, leaf(-1))\<close>, \<open>s = mul(x, leaf(-10))\<close> and the root \<open>r = add(q, s)\<close>, built from
  the empty store; it returns \<open>x\<close>, \<open>r\<close> and the store.  \<open>pwr_shared_store\<close> is that store as
  a function of the seven gradients.
\<close>

definition pwr_shared_program :: "(addr \<times> addr \<times> heap) option" where
  "pwr_shared_program = do {
     (x, h) \<leftarrow> Some (defaultValue 2 []);
     (p, h) \<leftarrow> pwr libm_real x x h;
     (m, h) \<leftarrow> Some (defaultValue (- 1) h);
     (q, h) \<leftarrow> mul p m h;
     (t, h) \<leftarrow> Some (defaultValue (- 10) h);
     (s, h) \<leftarrow> mul x t h;
     (r, h) \<leftarrow> add q s h;
     Some (x, r, h) }"

definition pwr_shared_store :: "real \<Rightarrow> real \<Rightarrow> real \<Rightarrow> real \<Rightarrow> real \<Rightarrow> real \<Rightarrow> real \<Rightarrow> heap" where
  "pwr_shared_store g0 g1 g2 g3 g4 g5 g6 =
     [\<lparr>data = 2, grad = g0, children = [], n_children = 0, reverse_ptr = None\<rparr>,
      \<lparr>data = 4, grad = g1, children = [0, 0], n_children = 2, reverse_ptr = Some PwrReverse\<rparr>,
      \<lparr>data = - 1, grad = g2, children = [], n_children = 0, reverse_ptr = None\<rparr>,
      \<lparr>data = - 4, grad = g3, children = [1, 2], n_children = 2, reverse_ptr = Some MulReverse\<rparr>,
      \<lparr>data = - 10, grad = g4, children = [], n_children = 0, reverse_ptr = None\<rparr>,
      \<lparr>data = - 20, grad = g5, children = [0, 4], n_children = 2, reverse_ptr = Some MulReverse\<rparr>,
      \<lparr>data = - 24, grad = g6, children = [3, 5], n_children = 2, reverse_ptr = Some AddReverse\<rparr>]"

text \<open>
  A test program: the chain \<open>c\<^sub>0 = x\<close>, \<open>c\<^sub>k\<^sub>+\<^sub>1 = add(c\<^sub>k, c\<^sub>k)\<close>, whose root is \<open>2\<^sup>n * x\<close>, and
  the struct that the chain over a leaf of value 1 puts at address \<open>k\<close>.
\<close>

fun add_chain :: "nat \<Rightarrow> addr \<Rightarrow> heap \<Rightarrow> (addr \<times> heap) option" where
  "add_chain 0 x h = Some (x, h)"
| "add_chain (Suc n) x h = do { (c, h1) \<leftarrow> add x x h; add_chain n c h1 }"

definition chain_node :: "nat \<Rightarrow> Value" where
  "chain_node k =
     (if k = 0 then \<lparr>data = 1, grad = 0, children = [], n_children = 0, reverse_ptr = None\<rparr>
      else \<lparr>data = 2 ^ k, grad = 0, children = [k - 1, k - 1], n_children = 2,
             reverse_ptr = Some AddReverse\<rparr>)"

section \<open>Basic facts about the store\<close>

lemma clamp_range: "MIN_RANGE \<le> clamp g \<and> clamp g \<le> MAX_RANGE"
  by (simp add: clamp_def MIN_RANGE_def MAX_RANGE_def)

lemma clamp_idem: "clamp (clamp g) = clamp g"
  by (simp add: clamp_def MIN_RANGE_def MAX_RANGE_def)

lemma length_upd_grad [simp]: "length (upd_grad p f h) = length h"
  by (simp add: upd_grad_def)

lemma nth_upd_grad:
  "q < length h \<Longrightarrow>
   upd_grad p f h ! q = (if q = p then (h ! p)\<lparr>grad := f (grad (h ! p))\<rparr> else h ! q)"
  by (simp add: upd_grad_def nth_list_update)

lemma upd_grad_other: "q \<noteq> p \<Longrightarrow> upd_grad p f h ! q = h ! q"
  by (simp add: upd_grad_def)

lemma children_upd_grad [simp]: "children (upd_grad p f h ! q) = children (h ! q)"
  by (cases "p < length h") (auto simp: upd_grad_def nth_list_update list_update_beyond)

lemma data_upd_grad [simp]: "data (upd_grad p f h ! q) = data (h ! q)"
  by (cases "p < length h") (auto simp: upd_grad_def nth_list_update list_update_beyond)

lemma skeleton_upd_grad [simp]: "skeleton (upd_grad p f h) = skeleton h"
  by (cases "p < length h")
    (auto simp: skeleton_def upd_grad_def list_eq_iff_nth_eq nth_list_update)

lemma length_skeleton [simp]: "length (skeleton h) = length h"
  by (simp add: skeleton_def)

lemma nth_skeleton: "p < length h \<Longrightarrow> skeleton h ! p = (h ! p)\<lparr>grad := 0\<rparr>"
  by (simp add: skeleton_def)

lemma skeleton_length: "skeleton h' = skeleton h \<Longrightarrow> length h' = length h"
  by (metis length_skeleton)

lemma skeleton_fields:
  assumes "skeleton h' = skeleton h" "p < length h"
  shows "data (h' ! p) = data (h ! p)" "children (h' ! p) = children (h ! p)"
    "n_children (h' ! p) = n_children (h ! p)" "reverse_ptr (h' ! p) = reverse_ptr (h ! p)"
proof -
  have l: "length h' = length h" using assms(1) by (rule skeleton_length)
  have "(h' ! p)\<lparr>grad := 0\<rparr> = (h ! p)\<lparr>grad := 0\<rparr>"
    using assms l by (metis nth_skeleton)
  then show "data (h' ! p) = data (h ! p)" "children (h' ! p) = children (h ! p)"
    "n_children (h' ! p) = n_children (h ! p)" "reverse_ptr (h' ! p) = reverse_ptr (h ! p)"
    by (metis Value.select_convs Value.surjective Value.update_convs)+
qed

lemma wf_heap_iff:
  "wf_heap h \<longleftrightarrow> (\<forall>p < length h. \<forall>q \<in> set (children (h ! p)). q < p)"
proof
  assume w: "wf_heap h"
  show "\<forall>p < length h. \<forall>q \<in> set (children (h ! p)). q < p"
  proof (intro allI impI ballI)
    fix p q
    assume "p < length h" "q \<in> set (children (h ! p))"
    moreover from this have "(p, h ! p) \<in> set (enumerate 0 h)"
      by (simp add: in_set_enumerate_eq)
    ultimately show "q < p"
      using w by (auto simp: wf_heap_def list_all_iff)
  qed
next
  assume "\<forall>p < length h. \<forall>q \<in> set (children (h ! p)). q < p"
  then show "wf_heap h"
    by (auto simp: wf_heap_def list_all_iff in_set_enumerate_eq)
qed

lemma wf_heap_skeleton:
  assumes "skeleton h' = skeleton h"
  shows "wf_heap h' = wf_heap h"
  using skeleton_length[OF assms] skeleton_fields(2)[OF assms]
  by (simp add: wf_heap_iff)

lemma wf_heap_empty: "wf_heap []"
  by (simp add: wf_heap_def)

lemma wf_heap_snoc:
  "wf_heap h \<Longrightarrow> \<forall>q \<in> set (children n). q < length h \<Longrightarrow> wf_heap (h @ [n])"
  by (auto simp: wf_heap_iff nth_append less_Suc_eq)

lemma deref_Some: "deref h p = Some v \<longleftrightarrow> p < length h \<and> v = h ! p"
  by (auto simp: deref_def)

lemma child_Some:
  "child h c i = Some a \<longleftrightarrow>
     c < length h \<and> i < length (children (h ! c)) \<and> a = children (h ! c) ! i"
  by (auto simp: child_def deref_def split: bind_splits if_splits)

lemma grad_add_Some:
  "grad_add p x h = Some h' \<longleftrightarrow> p < length h \<and> h' = upd_grad p (\<lambda>g. g + x) h"
  by (auto simp: grad_add_def deref_def upd_grad_def split: bind_splits if_splits)

lemma grad_clip_Some:
  "grad_clip p h = Some h' \<longleftrightarrow> p < length h \<and> h' = upd_grad p clamp h"
  by (auto simp: grad_clip_def deref_def upd_grad_def clamp_def split: bind_splits if_splits)

section \<open>What one reverse function does to the store\<close>

lemma add_reverse_Some:
  "add_reverse c h = Some h' \<longleftrightarrow>
     c < length h \<and> 1 < length (children (h ! c)) \<and>
     children (h ! c) ! 0 < length h \<and> children (h ! c) ! 1 < length h \<and>
     h' = (let a = children (h ! c) ! 0; b = children (h ! c) ! 1;
               h1 = upd_grad a (\<lambda>g. g + grad (h ! c)) h;
               h2 = upd_grad b (\<lambda>g. g + grad (h1 ! c)) h1
           in upd_grad b clamp (upd_grad a clamp h2))"
  by (auto simp: add_reverse_def child_Some deref_Some grad_add_Some grad_clip_Some Let_def
      bind_eq_Some_conv)

lemma mul_reverse_Some:
  "mul_reverse c h = Some h' \<longleftrightarrow>
     c < length h \<and> 1 < length (children (h ! c)) \<and>
     children (h ! c) ! 0 < length h \<and> children (h ! c) ! 1 < length h \<and>
     h' = (let a = children (h ! c) ! 0; b = children (h ! c) ! 1;
               h1 = upd_grad a (\<lambda>g. g + grad (h ! c) * data (h ! b)) h;
               h2 = upd_grad b (\<lambda>g. g + grad (h1 ! c) * data (h ! a)) h1
           in upd_grad b clamp (upd_grad a clamp h2))"
  by (auto simp: mul_reverse_def child_Some deref_Some grad_add_Some grad_clip_Some Let_def
      bind_eq_Some_conv)

lemma pwr_reverse_Some:
  "pwr_reverse M c h = Some h' \<longleftrightarrow>
     c < length h \<and> 1 < length (children (h ! c)) \<and>
     children (h ! c) ! 0 < length h \<and> children (h ! c) ! 1 < length h \<and>
     h' = (let a = children (h ! c) ! 0; b = children (h ! c) ! 1;
               h1 = upd_grad a
                      (\<lambda>g. g + data (h ! b) * libm_pow M (data (h ! a)) (data (h ! b) - 1)
                                  * grad (h ! c)) h;
               h2 = (if data (h ! b) > 0
                     then upd_grad b
                            (\<lambda>g. g + (libm_log M (data (h ! a)) * data (h ! c)
                                        + grad (h1 ! c))) h1
                     else h1)
           in upd_grad b clamp (upd_grad a clamp h2))"
  by (auto simp: pwr_reverse_def child_Some deref_Some grad_add_Some grad_clip_Some Let_def
      bind_eq_Some_conv)

lemma relu_reverse_Some:
  "relu_reverse c h = Some h' \<longleftrightarrow>
     c < length h \<and> 0 < length (children (h ! c)) \<and> children (h ! c) ! 0 < length h \<and>
     h' = (let a = children (h ! c) ! 0
           in upd_grad a clamp
                (upd_grad a (\<lambda>g. g + (if data (h ! a) > 0 then grad (h ! c) else 0)) h))"
  by (auto simp: relu_reverse_def child_Some deref_Some grad_add_Some grad_clip_Some Let_def
      bind_eq_Some_conv)

lemma call_reverse_skeleton:
  "call_reverse M f c h = Some h' \<Longrightarrow> skeleton h' = skeleton h"
  by (cases f)
    (auto simp: add_reverse_Some mul_reverse_Some pwr_reverse_Some relu_reverse_Some Let_def)

lemma call_reverse_other:
  assumes "call_reverse M f c h = Some h'" "p \<notin> set (children (h ! c))"
  shows "h' ! p = h ! p"
proof -
  have "0 < length (children (h ! c))"
    using assms(1)
    by (cases f)
      (auto simp: add_reverse_Some mul_reverse_Some pwr_reverse_Some relu_reverse_Some)
  then have a: "p \<noteq> children (h ! c) ! 0"
    using assms(2) nth_mem by metis
  have b: "1 < length (children (h ! c)) \<Longrightarrow> p \<noteq> children (h ! c) ! 1"
    using assms(2) nth_mem by metis
  show ?thesis
    using assms(1) a b
    by (cases f)
      (auto simp: add_reverse_Some mul_reverse_Some pwr_reverse_Some relu_reverse_Some Let_def
        upd_grad_other)
qed

text \<open>
  \<^verbatim>\<open>add_reverse\<close> makes its two updates and then its two clamps.  When the node is not its own
  operand and the gradient of the first operand starts within the range, the result is the
  store in which each update is clamped before the next one is made, also when both
  operands are the same node.
\<close>

lemma clamp_add_twice:
  assumes "MIN_RANGE \<le> x" "x \<le> MAX_RANGE"
  shows "clamp (clamp (x + g) + g) = clamp (x + g + g)"
  using assms by (auto simp: clamp_def MIN_RANGE_def MAX_RANGE_def)

lemma add_reverse_clamps_each_update:
  assumes r: "add_reverse c h = Some h'"
    and ab: "a = children (h ! c) ! 0" "b = children (h ! c) ! 1"
    and c: "c \<noteq> a" "c \<noteq> b"
    and rg: "MIN_RANGE \<le> grad (h ! a)" "grad (h ! a) \<le> MAX_RANGE"
  shows "h' = upd_grad b (\<lambda>g. clamp (g + grad (h ! c)))
                (upd_grad a (\<lambda>g. clamp (g + grad (h ! c))) h)"
proof -
  from r ab have v: "a < length h" "b < length h" "c < length h"
    and e: "h' = upd_grad b clamp (upd_grad a clamp
              (upd_grad b (\<lambda>g. g + grad (upd_grad a (\<lambda>g. g + grad (h ! c)) h ! c))
                 (upd_grad a (\<lambda>g. g + grad (h ! c)) h)))"
    by (auto simp: add_reverse_Some Let_def)
  have gc: "grad (upd_grad a (\<lambda>g. g + grad (h ! c)) h ! c) = grad (h ! c)"
    using c by (simp add: upd_grad_other)
  show ?thesis
  proof (cases "a = b")
    case True
    with v e gc clamp_add_twice[OF rg, of "grad (h ! c)"] show ?thesis
      by (auto simp: list_eq_iff_nth_eq nth_upd_grad clamp_idem)
  next
    case False
    with v e gc show ?thesis
      by (auto simp: list_eq_iff_nth_eq nth_upd_grad clamp_idem)
  qed
qed

section \<open>What the reverse pass does to the store\<close>

lemma reverse_loop_skeleton:
  "reverse_loop M vs h = Some h' \<Longrightarrow> skeleton h' = skeleton h"
proof (induction vs arbitrary: h)
  case Nil
  then show ?case by simp
next
  case (Cons v vs)
  show ?case
  proof (cases "reverse_ptr (h ! v)")
    case None
    with Cons show ?thesis by (auto simp: deref_Some bind_eq_Some_conv)
  next
    case (Some f)
    with Cons.prems obtain h1 where
      c: "call_reverse M f v h = Some h1" and r: "reverse_loop M vs h1 = Some h'"
      by (auto simp: deref_Some bind_eq_Some_conv)
    from Cons.IH[OF r] call_reverse_skeleton[OF c] show ?thesis by simp
  qed
qed

lemma reverse_skeleton:
  assumes "reverse M rt h = Some h'"
  shows "skeleton h' = skeleton h"
proof -
  from assms obtain dag visited where
    r: "reverse_loop M (rev dag) (upd_grad rt (\<lambda>_. 1) h) = Some h'"
    by (auto simp: reverse_def deref_Some bind_eq_Some_conv upd_grad_def)
  from reverse_loop_skeleton[OF r] show ?thesis by simp
qed

text \<open>
  On a well-formed store the sorter only emits the node it is called on and addresses below
  it, and a reverse function only writes to the children of its node: the loop over nodes at
  or below \<open>rt\<close> leaves the struct at \<open>rt\<close> alone.
\<close>

lemma build_dag_bound:
  "build_dag h val st = Some st' \<Longrightarrow> wf_heap h \<Longrightarrow>
     set (fst st') \<subseteq> set (fst st) \<union> {..val}"
  "build_dag_loop h val i st = Some st' \<Longrightarrow> wf_heap h \<Longrightarrow>
     set (fst st') \<subseteq> set (fst st) \<union> {..<val}"
proof (induction h val st and h val i st arbitrary: st' and st'
    rule: build_dag_build_dag_loop.induct)
  case (1 h val dag visited)
  show ?case
  proof (cases "val \<in> set (take (length dag) visited)")
    case True
    with 1(2) show ?thesis by (simp add: build_dag.simps)
  next
    case False
    note nv = this
    show ?thesis
    proof (cases "MAX_DAG_SIZE \<le> length visited")
      case True
      with nv 1(2) show ?thesis by (simp add: build_dag.simps)
    next
      case False
      with nv 1(2) obtain d' v' where
        r: "build_dag_loop h val 0 (dag, visited @ [val]) = Some (d', v')" and
        s: "st' = (d' @ [val], v')"
        by (simp add: build_dag.simps split: option.splits prod.splits if_splits)
      from 1(1)[OF nv False r 1(3)] s show ?thesis by auto
    qed
  qed
next
  case (2 h val i dag visited)
  note wf = 2(4)
  show ?case
  proof (cases "val < length h \<and> i < n_children (h ! val)")
    case False
    with 2(3) show ?thesis by (auto simp: build_dag_loop.simps split: if_splits)
  next
    case True
    hence a: "val < length h" "i < n_children (h ! val)" by auto
    with 2(3) have b: "i < length (children (h ! val))"
      by (auto simp: build_dag_loop.simps split: if_splits)
    with a 2(3) obtain st1 where
      r: "build_dag h (children (h ! val) ! i) (dag, visited) = Some st1" and
      s: "build_dag_loop h val (i + 1) st1 = Some st'"
      by (auto simp: build_dag_loop.simps split: option.splits)
    have n1: "\<not> \<not> val < length h" using a by simp
    have n2: "\<not> \<not> i < length (children (h ! val))" using b by simp
    have lt: "children (h ! val) ! i < val"
    proof -
      have "children (h ! val) ! i \<in> set (children (h ! val))" using b by simp
      with wf a(1) show ?thesis by (auto simp: wf_heap_iff)
    qed
    from 2(1)[OF n1 a(2) n2 r wf]
    have "set (fst st1) \<subseteq> set dag \<union> {..children (h ! val) ! i}"
      by simp
    moreover from 2(2)[OF n1 a(2) n2 r s wf]
    have "set (fst st') \<subseteq> set (fst st1) \<union> {..<val}" .
    ultimately show ?thesis using lt by auto
  qed
qed

text \<open>
  Every call of the sorter adds as many entries to \<^verbatim>\<open>dag\<close> as to \<^verbatim>\<open>visited\<close>.  Started by
  \<^verbatim>\<open>reverse\<close> with both empty, it therefore always has \<^verbatim>\<open>*dag_size \<le> *len_visited\<close>: the
  membership loop only reads entries of \<^verbatim>\<open>visited\<close> that have been written.
\<close>

lemma build_dag_sizes:
  "build_dag h val st = Some st' \<Longrightarrow>
     length (snd st') + length (fst st) = length (snd st) + length (fst st')"
  "build_dag_loop h val i st = Some st' \<Longrightarrow>
     length (snd st') + length (fst st) = length (snd st) + length (fst st')"
proof (induction h val st and h val i st arbitrary: st' and st'
    rule: build_dag_build_dag_loop.induct)
  case (1 h val dag visited)
  show ?case
  proof (cases "val \<in> set (take (length dag) visited)")
    case True
    with 1(2) show ?thesis by (simp add: build_dag.simps)
  next
    case False
    note nv = this
    show ?thesis
    proof (cases "MAX_DAG_SIZE \<le> length visited")
      case True
      with nv 1(2) show ?thesis by (simp add: build_dag.simps)
    next
      case False
      with nv 1(2) obtain d' v' where
        r: "build_dag_loop h val 0 (dag, visited @ [val]) = Some (d', v')" and
        s: "st' = (d' @ [val], v')"
        by (simp add: build_dag.simps split: option.splits prod.splits if_splits)
      from 1(1)[OF nv False r] s show ?thesis by simp
    qed
  qed
next
  case (2 h val i dag visited)
  show ?case
  proof (cases "val < length h \<and> i < n_children (h ! val)")
    case False
    with 2(3) show ?thesis by (auto simp: build_dag_loop.simps split: if_splits)
  next
    case True
    hence a: "val < length h" "i < n_children (h ! val)" by auto
    with 2(3) have b: "i < length (children (h ! val))"
      by (auto simp: build_dag_loop.simps split: if_splits)
    with a 2(3) obtain st1 where
      r: "build_dag h (children (h ! val) ! i) (dag, visited) = Some st1" and
      s: "build_dag_loop h val (i + 1) st1 = Some st'"
      by (auto simp: build_dag_loop.simps split: option.splits)
    have n1: "\<not> \<not> val < length h" using a by simp
    have n2: "\<not> \<not> i < length (children (h ! val))" using b by simp
    from 2(1)[OF n1 a(2) n2 r] 2(2)[OF n1 a(2) n2 r s] show ?thesis by simp
  qed
qed

text \<open>
  What the sorter does achieve on a well-formed store: the sequence ends up holding the
  root, and every entry of the sequence is preceded by the operands of its node, so every
  node reachable from the root is in the sequence.  A node that the membership loop finds
  in \<^verbatim>\<open>visited\<close> is either in \<^verbatim>\<open>dag\<close> already or an ancestor being visited, and an ancestor
  has a higher address than the node.
\<close>

lemma operands_first_snoc:
  assumes "operands_first h dag" "\<forall>i < n_children (h ! v). children (h ! v) ! i \<in> set dag"
  shows "operands_first h (dag @ [v])"
  unfolding operands_first_def
proof (intro allI impI)
  fix k i
  assume k: "k < length (dag @ [v])" and i: "i < n_children (h ! ((dag @ [v]) ! k))"
  show "children (h ! ((dag @ [v]) ! k)) ! i \<in> set (take k (dag @ [v]))"
  proof (cases "k < length dag")
    case True
    with assms(1) i show ?thesis
      by (auto simp: operands_first_def nth_append)
  next
    case False
    with k have "k = length dag" by simp
    with assms(2) i show ?thesis by simp
  qed
qed

lemma build_dag_operands_first_aux:
  "build_dag h val st = Some st' \<Longrightarrow> wf_heap h \<Longrightarrow> operands_first h (fst st) \<Longrightarrow>
     (\<forall>v \<in> set (snd st). v \<in> set (fst st) \<or> val < v) \<Longrightarrow>
     operands_first h (fst st') \<and> val \<in> set (fst st') \<and> set (fst st) \<subseteq> set (fst st')
     \<and> set (snd st') \<subseteq> set (snd st) \<union> set (fst st')"
  "build_dag_loop h val i st = Some st' \<Longrightarrow> wf_heap h \<Longrightarrow> operands_first h (fst st) \<Longrightarrow>
     (\<forall>v \<in> set (snd st). v \<in> set (fst st) \<or> val \<le> v) \<Longrightarrow>
     operands_first h (fst st') \<and> set (fst st) \<subseteq> set (fst st')
     \<and> set (snd st') \<subseteq> set (snd st) \<union> set (fst st')
     \<and> (\<forall>j. i \<le> j \<and> j < n_children (h ! val) \<longrightarrow> children (h ! val) ! j \<in> set (fst st'))"
proof (induction h val st and h val i st arbitrary: st' and st'
    rule: build_dag_build_dag_loop.induct)
  case (1 h val dag visited)
  note wf = 1(3) and of = 1(4) and vis = 1(5)
  show ?case
  proof (cases "val \<in> set (take (length dag) visited)")
    case True
    then have "val \<in> set visited" by (rule in_set_takeD)
    with vis have "val \<in> set dag" by auto
    with True 1(2) of show ?thesis by (auto simp: build_dag.simps)
  next
    case False
    note nv = this
    show ?thesis
    proof (cases "MAX_DAG_SIZE \<le> length visited")
      case True
      with nv 1(2) show ?thesis by (simp add: build_dag.simps)
    next
      case False
      with nv 1(2) obtain d' v' where
        r: "build_dag_loop h val 0 (dag, visited @ [val]) = Some (d', v')" and
        s: "st' = (d' @ [val], v')"
        by (simp add: build_dag.simps split: option.splits prod.splits if_splits)
      have pre: "\<forall>v \<in> set (snd (dag, visited @ [val])). v \<in> set (fst (dag, visited @ [val])) \<or> val \<le> v"
        using vis by auto
      have of': "operands_first h (fst (dag, visited @ [val]))" using of by simp
      from 1(1)[OF nv False r wf of' pre]
      have a: "operands_first h d'" and b: "set dag \<subseteq> set d'"
        and c: "set v' \<subseteq> set (visited @ [val]) \<union> set d'"
        and d: "\<forall>j < n_children (h ! val). children (h ! val) ! j \<in> set d'"
        by auto
      from operands_first_snoc[OF a d] b c s show ?thesis by auto
    qed
  qed
next
  case (2 h val i dag visited)
  note wf = 2(4) and of = 2(5) and vis = 2(6)
  show ?case
  proof (cases "val < length h \<and> i < n_children (h ! val)")
    case False
    with 2(3) of show ?thesis by (auto simp: build_dag_loop.simps split: if_splits)
  next
    case True
    hence a: "val < length h" "i < n_children (h ! val)" by auto
    with 2(3) have b: "i < length (children (h ! val))"
      by (auto simp: build_dag_loop.simps split: if_splits)
    with a 2(3) obtain st1 where
      r: "build_dag h (children (h ! val) ! i) (dag, visited) = Some st1" and
      s: "build_dag_loop h val (i + 1) st1 = Some st'"
      by (auto simp: build_dag_loop.simps split: option.splits)
    have n1: "\<not> \<not> val < length h" using a by simp
    have n2: "\<not> \<not> i < length (children (h ! val))" using b by simp
    have lt: "children (h ! val) ! i < val"
    proof -
      have "children (h ! val) ! i \<in> set (children (h ! val))" using b by simp
      with wf a(1) show ?thesis by (auto simp: wf_heap_iff)
    qed
    have pre1: "\<forall>v \<in> set (snd (dag, visited)).
        v \<in> set (fst (dag, visited)) \<or> children (h ! val) ! i < v"
      using vis lt by auto
    from 2(1)[OF n1 a(2) n2 r wf of pre1]
    have c1: "operands_first h (fst st1)" and c2: "children (h ! val) ! i \<in> set (fst st1)"
      and c3: "set dag \<subseteq> set (fst st1)" and c4: "set (snd st1) \<subseteq> set visited \<union> set (fst st1)"
      by auto
    have pre2: "\<forall>v \<in> set (snd st1). v \<in> set (fst st1) \<or> val \<le> v"
      using c3 c4 vis by auto
    from 2(2)[OF n1 a(2) n2 r s wf c1 pre2]
    have e1: "operands_first h (fst st')" and e2: "set (fst st1) \<subseteq> set (fst st')"
      and e3: "set (snd st') \<subseteq> set (snd st1) \<union> set (fst st')"
      and e4: "\<forall>j. i + 1 \<le> j \<and> j < n_children (h ! val) \<longrightarrow>
                 children (h ! val) ! j \<in> set (fst st')"
      by auto
    have "\<forall>j. i \<le> j \<and> j < n_children (h ! val) \<longrightarrow> children (h ! val) ! j \<in> set (fst st')"
    proof (intro allI impI)
      fix j assume j: "i \<le> j \<and> j < n_children (h ! val)"
      show "children (h ! val) ! j \<in> set (fst st')"
      proof (cases "j = i")
        case True
        with c2 e2 show ?thesis by auto
      next
        case False
        with j e4 show ?thesis by auto
      qed
    qed
    with e1 e2 e3 c3 c4 show ?thesis by auto
  qed
qed

lemma build_dag_operands_first:
  assumes "wf_heap h" "build_dag h rt ([], []) = Some (dag, visited)"
  shows "rt \<in> set dag" "operands_first h dag"
  using build_dag_operands_first_aux(1)[OF assms(2) assms(1)]
  by (simp_all add: operands_first_def)

lemma reverse_loop_keeps_root:
  "reverse_loop M vs h = Some h' \<Longrightarrow> wf_heap h \<Longrightarrow> \<forall>v \<in> set vs. v \<le> rt \<Longrightarrow>
     h' ! rt = h ! rt"
proof (induction vs arbitrary: h)
  case Nil
  then show ?case by simp
next
  case (Cons v vs)
  from Cons.prems(1) have vl: "v < length h"
    by (auto simp: deref_Some bind_eq_Some_conv)
  show ?case
  proof (cases "reverse_ptr (h ! v)")
    case None
    with Cons.prems(1) vl have "reverse_loop M vs h = Some h'"
      by (simp add: deref_def)
    from Cons.IH[OF this Cons.prems(2)] Cons.prems(3) show ?thesis by simp
  next
    case (Some f)
    with Cons.prems(1) vl obtain h1 where
      c: "call_reverse M f v h = Some h1" and r: "reverse_loop M vs h1 = Some h'"
      by (auto simp: deref_def bind_eq_Some_conv)
    have "\<forall>q \<in> set (children (h ! v)). q < v"
      using Cons.prems(2) vl by (simp add: wf_heap_iff)
    moreover have "v \<le> rt" using Cons.prems(3) by simp
    ultimately have "rt \<notin> set (children (h ! v))" by auto
    from call_reverse_other[OF c this] have e: "h1 ! rt = h ! rt" .
    have "wf_heap h1"
      using wf_heap_skeleton[OF call_reverse_skeleton[OF c]] Cons.prems(2) by simp
    from Cons.IH[OF r this] Cons.prems(3) e show ?thesis by simp
  qed
qed

section \<open>What the operators build\<close>

lemma add_Some:
  "add a b h = Some r \<longleftrightarrow> a < length h \<and> b < length h \<and>
     r = (length h, h @ [\<lparr>data = data (h ! a) + data (h ! b), grad = 0,
            children = [a, b], n_children = 2, reverse_ptr = Some AddReverse\<rparr>])"
  by (auto simp: add_def deref_def defaultValue_def split: bind_splits if_splits)

lemma mul_Some:
  "mul a b h = Some r \<longleftrightarrow> a < length h \<and> b < length h \<and>
     r = (length h, h @ [\<lparr>data = data (h ! a) * data (h ! b), grad = 0,
            children = [a, b], n_children = 2, reverse_ptr = Some MulReverse\<rparr>])"
  by (auto simp: mul_def deref_def defaultValue_def split: bind_splits if_splits)

lemma pwr_Some:
  "pwr M a b h = Some r \<longleftrightarrow> a < length h \<and> b < length h \<and>
     r = (length h, h @ [\<lparr>data = libm_powf M (data (h ! a)) (data (h ! b)), grad = 0,
            children = [a, b], n_children = 2, reverse_ptr = Some PwrReverse\<rparr>])"
  by (auto simp: pwr_def deref_def defaultValue_def split: bind_splits if_splits)

lemma relu_Some:
  "relu a h = Some r \<longleftrightarrow> a < length h \<and>
     r = (length h, h @ [\<lparr>data = (if data (h ! a) > 0 then data (h ! a) else 0), grad = 0,
            children = [a], n_children = 1, reverse_ptr = Some ReluReverse\<rparr>])"
  by (auto simp: relu_def deref_def defaultValue_def split: bind_splits if_splits)

lemma add_valid:
  "a < length h \<Longrightarrow> b < length h \<Longrightarrow>
   add a b h = Some (length h, h @ [\<lparr>data = data (h ! a) + data (h ! b), grad = 0,
      children = [a, b], n_children = 2, reverse_ptr = Some AddReverse\<rparr>])"
  by (simp add: add_Some)

lemma mul_valid:
  "a < length h \<Longrightarrow> b < length h \<Longrightarrow>
   mul a b h = Some (length h, h @ [\<lparr>data = data (h ! a) * data (h ! b), grad = 0,
      children = [a, b], n_children = 2, reverse_ptr = Some MulReverse\<rparr>])"
  by (simp add: mul_Some)

lemma pwr_valid:
  "a < length h \<Longrightarrow> b < length h \<Longrightarrow>
   pwr M a b h = Some (length h, h @ [\<lparr>data = libm_powf M (data (h ! a)) (data (h ! b)),
      grad = 0, children = [a, b], n_children = 2, reverse_ptr = Some PwrReverse\<rparr>])"
  by (simp add: pwr_Some)

lemma relu_valid:
  "a < length h \<Longrightarrow>
   relu a h = Some (length h, h @ [\<lparr>data = (if data (h ! a) > 0 then data (h ! a) else 0),
      grad = 0, children = [a], n_children = 1, reverse_ptr = Some ReluReverse\<rparr>])"
  by (simp add: relu_Some)

lemma sub_valid:
  "a < length h \<Longrightarrow> b < length h \<Longrightarrow>
   sub a b h = Some (Suc (length h),
     h @ [\<lparr>data = - data (h ! b), grad = 0, children = [], n_children = 0,
            reverse_ptr = None\<rparr>,
          \<lparr>data = data (h ! a) + - data (h ! b), grad = 0,
            children = [a, length h], n_children = 2, reverse_ptr = Some AddReverse\<rparr>])"
  by (simp add: sub_def deref_def defaultValue_def add_valid nth_append)

lemma sub_Some_prefix:
  "sub a b h = Some (c, h') \<Longrightarrow> \<exists>n1 n2. h' = h @ [n1, n2]"
  by (auto simp: sub_def defaultValue_def add_Some split: bind_splits prod.splits)

lemma divide_valid:
  "a < length h \<Longrightarrow> b < length h \<Longrightarrow>
   divide_op M a b h = Some (Suc (Suc (length h)),
     h @ [\<lparr>data = - 1, grad = 0, children = [], n_children = 0, reverse_ptr = None\<rparr>,
          \<lparr>data = libm_powf M (data (h ! b)) (- 1), grad = 0,
             children = [b, length h], n_children = 2, reverse_ptr = Some PwrReverse\<rparr>,
          \<lparr>data = data (h ! a) * libm_powf M (data (h ! b)) (- 1), grad = 0,
             children = [a, Suc (length h)], n_children = 2, reverse_ptr = Some MulReverse\<rparr>])"
  by (simp add: divide_op_def defaultValue_def pwr_valid mul_valid nth_append)

lemma divide_Some_prefix:
  "divide_op M a b h = Some (c, h') \<Longrightarrow> \<exists>n1 n2 n3. h' = h @ [n1, n2, n3]"
  by (auto simp: divide_op_def defaultValue_def pwr_Some mul_Some split: bind_splits prod.splits)

text \<open>The operators keep the store well formed, so every graph they build is acyclic.\<close>

lemma wf_heap_defaultValue: "wf_heap h \<Longrightarrow> wf_heap (snd (defaultValue x h))"
  by (simp add: defaultValue_def wf_heap_snoc)

lemma wf_heap_operators:
  assumes "wf_heap h"
  shows "add a b h = Some (c, h') \<Longrightarrow> wf_heap h'"
    and "mul a b h = Some (c, h') \<Longrightarrow> wf_heap h'"
    and "pwr M a b h = Some (c, h') \<Longrightarrow> wf_heap h'"
    and "relu a h = Some (c, h') \<Longrightarrow> wf_heap h'"
  using assms by (auto simp: add_Some mul_Some pwr_Some relu_Some intro!: wf_heap_snoc)

lemma wf_heap_sub:
  assumes "wf_heap h" "sub a b h = Some (c, h')"
  shows "wf_heap h'"
proof -
  from assms(2) obtain n1 where
    e: "add a (length h) (h @ [n1]) = Some (c, h')" and n: "children n1 = []"
    by (auto simp: sub_def defaultValue_def split: bind_splits prod.splits)
  have "wf_heap (h @ [n1])" using assms(1) n by (simp add: wf_heap_snoc)
  with e show ?thesis by (rule wf_heap_operators(1)[rotated])
qed

lemma wf_heap_divide:
  assumes "wf_heap h" "divide_op M a b h = Some (c, h')"
  shows "wf_heap h'"
proof -
  from assms(2) obtain n1 r h2 where
    p: "pwr M b (length h) (h @ [n1]) = Some (r, h2)" and
    m: "mul a r h2 = Some (c, h')" and n: "children n1 = []"
    by (auto simp: divide_op_def defaultValue_def split: bind_splits prod.splits)
  have "wf_heap (h @ [n1])" using assms(1) n by (simp add: wf_heap_snoc)
  then have "wf_heap h2" using p by (rule wf_heap_operators(3))
  then show ?thesis using m by (rule wf_heap_operators(2))
qed

lemma wf_heap_reverse: "wf_heap h \<Longrightarrow> reverse M rt h = Some h' \<Longrightarrow> wf_heap h'"
  using wf_heap_skeleton[OF reverse_skeleton] by blast

lemma libm_real_simps:
  "libm_powf libm_real x y = x powr y"
  "libm_pow libm_real x y = x powr y"
  "libm_log libm_real x = ln x"
  by (simp_all add: libm_real_def)

section \<open>The sorter on the graphs of the scenarios\<close>

lemma build_dag_add_shared:
  assumes "h2 = h @ [\<lparr>data = d1, grad = g1, children = [], n_children = 0, reverse_ptr = None\<rparr>,
     \<lparr>data = d2, grad = g2, children = [length h, length h], n_children = 2,
        reverse_ptr = r\<rparr>]"
  shows "build_dag h2 (Suc (length h)) ([], [])
   = Some ([length h, length h, Suc (length h)], [Suc (length h), length h, length h])"
  unfolding assms
  by (simp add: build_dag.simps build_dag_loop.simps MAX_DAG_SIZE_def nth_append)

lemma build_dag_binary_leaves:
  assumes "h2 = h @ [\<lparr>data = d1, grad = g1, children = [], n_children = 0, reverse_ptr = None\<rparr>,
     \<lparr>data = d2, grad = g2, children = [], n_children = 0, reverse_ptr = None\<rparr>,
     \<lparr>data = d3, grad = g3, children = [length h, Suc (length h)], n_children = 2,
        reverse_ptr = r\<rparr>]"
  shows "build_dag h2 (Suc (Suc (length h))) ([], [])
   = Some ([length h, Suc (length h), Suc (Suc (length h))],
           [Suc (Suc (length h)), length h, Suc (length h)])"
  unfolding assms
  by (simp add: build_dag.simps build_dag_loop.simps MAX_DAG_SIZE_def nth_append)

lemma build_dag_sub:
  assumes "h2 = h @ [\<lparr>data = d1, grad = g1, children = [], n_children = 0, reverse_ptr = None\<rparr>,
     \<lparr>data = d2, grad = g2, children = [], n_children = 0, reverse_ptr = None\<rparr>,
     \<lparr>data = d3, grad = g3, children = [], n_children = 0, reverse_ptr = None\<rparr>,
     \<lparr>data = d4, grad = g4, children = [length h, Suc (Suc (length h))], n_children = 2,
        reverse_ptr = r\<rparr>]"
  shows "build_dag h2 (Suc (Suc (Suc (length h)))) ([], [])
   = Some ([length h, Suc (Suc (length h)), Suc (Suc (Suc (length h)))],
           [Suc (Suc (Suc (length h))), length h, Suc (Suc (length h))])"
  unfolding assms
  by (simp add: build_dag.simps build_dag_loop.simps MAX_DAG_SIZE_def nth_append)

section \<open>The doubling chain\<close>

lemma add_chain_builds:
  "add_chain n k (map chain_node [0..<Suc k]) = Some (k + n, map chain_node [0..<Suc (k + n)])"
proof (induction n arbitrary: k)
  case 0
  show ?case by simp
next
  case (Suc n)
  have d: "data (map chain_node [0..<Suc k] ! k) = 2 ^ k"
    by (simp add: nth_append chain_node_def)
  have "add k k (map chain_node [0..<Suc k])
        = Some (Suc k, map chain_node [0..<Suc k] @ [chain_node (Suc k)])"
    unfolding add_Some d by (simp add: chain_node_def)
  also have "map chain_node [0..<Suc k] @ [chain_node (Suc k)] = map chain_node [0..<Suc (Suc k)]"
    by simp
  finally have "add_chain (Suc n) k (map chain_node [0..<Suc k])
      = add_chain n (Suc k) (map chain_node [0..<Suc (Suc k)])"
    by simp
  with Suc.IH[of "Suc k"] show ?case by simp
qed

lemma chain_reverse:
  "map_option (\<lambda>h. grad (h ! 0)) (reverse M 20 (map chain_node [0..<21])) = Some 10"
  by code_simp

section \<open>The power node over a shared operand\<close>

lemma ln2_bounds: "1 / 2 \<le> ln (2::real)" "ln (2::real) \<le> 1"
proof -
  have "ln (1 - 1 / 2) \<le> - (1 / 2 :: real)"
    by (rule ln_one_minus_pos_upper_bound) simp_all
  moreover have "ln (1 - 1 / 2 :: real) = - ln 2"
    by (simp add: ln_div)
  ultimately show "1 / 2 \<le> ln (2::real)" by simp
  show "ln (2::real) \<le> 1"
    using ln_le_minus_one[of "2::real"] by simp
qed

lemma pwr_shared_build:
  "pwr_shared_program = Some (0, 6, pwr_shared_store 0 0 0 0 0 0 0)"
  by (simp add: pwr_shared_program_def defaultValue_def pwr_valid mul_valid add_valid
      libm_real_simps pwr_shared_store_def)

lemma pwr_shared_dag:
  "build_dag (pwr_shared_store g0 g1 g2 g3 g4 g5 g6) 6 ([], [])
     = Some ([0, 0, 1, 2, 3, 4, 5, 6], [6, 3, 1, 0, 0, 2, 5, 4])"
  unfolding pwr_shared_store_def by code_simp

lemma pwr_shared_reverse:
  "reverse libm_real 6 (pwr_shared_store 0 0 0 0 0 0 0)
     = Some (pwr_shared_store (- 10) (- 1) 4 1 2 1 1)"
proof -
  have d: "build_dag (pwr_shared_store 0 0 0 0 0 0 0) 6 ([], [])
     = Some ([0, 0, 1, 2, 3, 4, 5, 6], [6, 3, 1, 0, 0, 2, 5, 4])"
    by (rule pwr_shared_dag)
  show ?thesis
    using ln2_bounds
    by (simp add: reverse_def d)
      (simp add: pwr_shared_store_def deref_def child_def grad_add_def grad_clip_def
        add_reverse_def mul_reverse_def pwr_reverse_def MIN_RANGE_def MAX_RANGE_def
        libm_real_simps)
qed

lemma pwr_shared_reverse_per_update:
  "reverse_per_update libm_real 6 (pwr_shared_store 0 0 0 0 0 0 0)
     = Some (pwr_shared_store (4 * ln 2 - 11) (- 1) 4 1 2 1 1)"
proof -
  have d: "build_dag (pwr_shared_store 0 0 0 0 0 0 0) 6 ([], [])
     = Some ([0, 0, 1, 2, 3, 4, 5, 6], [6, 3, 1, 0, 0, 2, 5, 4])"
    by (rule pwr_shared_dag)
  show ?thesis
    using ln2_bounds
    by (simp add: reverse_per_update_def d)
      (simp add: pwr_shared_store_def deref_def child_def grad_add_def grad_clip_def
        add_reverse_per_update_def mul_reverse_per_update_def pwr_reverse_per_update_def
        MIN_RANGE_def MAX_RANGE_def libm_real_simps)
qed

section \<open>The claims\<close>

subsection \<open>C1: the gradient rule of power\<close>

text \<open>
  Claim C1 says that the reverse pass applies to a node \<open>c = power(a, b)\<close> the rule
  \<open>a.gradient += b.value * a.value^(b.value-1) * c.gradient\<close> and
  \<open>b.gradient += log(a.value) * c.value * c.gradient\<close>, the second update being skipped exactly
  when \<open>a.value \<le> 0\<close>.  \<^verbatim>\<open>pwr_reverse\<close> does the first update, but its second update is
  \<^verbatim>\<open>b->grad += log(a->data) * c->data + c->grad\<close> under the guard \<^verbatim>\<open>b->data > 0\<close>.  The theorem
  runs the program \<open>a = leaf(1)\<close>, \<open>b = leaf(2)\<close>, \<open>c = pwr(a, b)\<close>, \<open>reverse(c)\<close> on any
  store: the value of \<open>c\<close> is 1 and its gradient is the seed 1, so the rule of the claim adds
  \<open>log(1) * 1 * 1 = 0\<close> to the gradient of \<open>b\<close>, and the code leaves it at 1.
\<close>

theorem pwr_reverse_exponent_rule_at_1_2:
  "(let (a, h1) = defaultValue 1 h; (b, h2) = defaultValue 2 h1 in
     do { (c, h3) \<leftarrow> pwr libm_real a b h2;
          h4 \<leftarrow> reverse libm_real c h3;
          Some (data (h4 ! c), grad (h4 ! c), grad (h4 ! a), grad (h4 ! b)) })
   = Some (1, 1, 2, 1)
   \<and> libm_log libm_real 1 * 1 * 1 = 0"
proof -
  let ?n = "\<lambda>g1 g2 g3.
     h @ [\<lparr>data = 1, grad = g1, children = [], n_children = 0, reverse_ptr = None\<rparr>,
          \<lparr>data = 2, grad = g2, children = [], n_children = 0, reverse_ptr = None\<rparr>,
          \<lparr>data = 1, grad = g3, children = [length h, Suc (length h)], n_children = 2,
             reverse_ptr = Some PwrReverse\<rparr>]"
  have r1: "reverse libm_real (Suc (Suc (length h))) (?n 0 0 0) = Some (?n 2 1 1)"
    by (simp add: reverse_def build_dag_binary_leaves[OF refl] deref_def nth_append
        pwr_reverse_def child_def grad_add_def grad_clip_def MIN_RANGE_def MAX_RANGE_def
        list_update_append libm_real_simps)
  show ?thesis
    by (simp add: defaultValue_def pwr_valid r1 nth_append libm_real_simps)
qed

text \<open>
  The guard is on the exponent, not on the base: for \<open>a = leaf(2)\<close>, \<open>b = leaf(-1)\<close> the base
  is positive and the term \<open>log(2) * c.value * c.gradient\<close> of the claim is positive, but the
  code skips the update and the gradient of \<open>b\<close> stays 0.
\<close>

lemma pwr_reverse_guard_at_2_minus_1:
  "(let (a, h1) = defaultValue 2 h; (b, h2) = defaultValue (- 1) h1 in
     do { (c, h3) \<leftarrow> pwr libm_real a b h2;
          h4 \<leftarrow> reverse libm_real c h3;
          Some (data (h4 ! c), grad (h4 ! c), grad (h4 ! a), grad (h4 ! b)) })
   = Some (1 / 2, 1, - (1 / 4), 0)
   \<and> libm_log libm_real 2 * (1 / 2) * 1 > 0"
proof -
  let ?n = "\<lambda>g1 g2 g3.
     h @ [\<lparr>data = 2, grad = g1, children = [], n_children = 0, reverse_ptr = None\<rparr>,
          \<lparr>data = - 1, grad = g2, children = [], n_children = 0, reverse_ptr = None\<rparr>,
          \<lparr>data = 1 / 2, grad = g3, children = [length h, Suc (length h)], n_children = 2,
             reverse_ptr = Some PwrReverse\<rparr>]"
  have r1: "reverse libm_real (Suc (Suc (length h))) (?n 0 0 0) = Some (?n (- (1 / 4)) 0 1)"
    by (simp add: reverse_def build_dag_binary_leaves[OF refl] deref_def nth_append
        pwr_reverse_def child_def grad_add_def grad_clip_def MIN_RANGE_def MAX_RANGE_def
        list_update_append libm_real_simps powr_neg_numeral)
  show ?thesis
    by (simp add: defaultValue_def pwr_valid r1 nth_append libm_real_simps)
qed

subsection \<open>C2: the topological sorter\<close>

text \<open>
  Claim C2 says that the sequence built by \<^verbatim>\<open>build_dag\<close> holds every node reachable from the
  root exactly once, operands before the node.  The membership loop of \<^verbatim>\<open>build_dag\<close> scans
  \<^verbatim>\<open>visited\<close> up to \<^verbatim>\<open>*dag_size\<close> and not up to \<^verbatim>\<open>*len_visited\<close>, so it misses the nodes whose
  entry in \<^verbatim>\<open>visited\<close> lies at or beyond the number of nodes emitted so far.  The theorem
  runs the sorter on \<open>c = add(x, x)\<close> for a fresh leaf \<open>x\<close>, on any store: the sequence is
  \<open>[x, x, c]\<close>, with the shared leaf twice.  The other half of the claim holds: the root
  is in the sequence and the operands come first (\<open>build_dag_operands_first\<close>).
\<close>

theorem build_dag_emits_shared_leaf_twice:
  "(let (x, h1) = defaultValue v h in
     do { (c, h2) \<leftarrow> add x x h1;
          (dag, visited) \<leftarrow> build_dag h2 c ([], []);
          Some (x, c, dag) })
   = Some (length h, Suc (length h), [length h, length h, Suc (length h)])"
  by (simp add: defaultValue_def add_valid nth_append build_dag_add_shared[OF refl])

text \<open>
  An inner node can be emitted twice as well, and then its reverse function runs twice.  For
  \<open>y = add(x, x)\<close> and the root \<open>relu(relu(relu(add(y, y))))\<close> over the leaf \<open>x = 3\<close>, the root
  is \<open>4 * x = 12\<close>, the sequence holds \<open>y\<close> twice, and the gradient of \<open>x\<close> comes out as 8.
\<close>

lemma build_dag_duplicate_inner_node:
  "(let (x, h) = defaultValue 3 [] in
     do { (y, h) \<leftarrow> add x x h;
          (a, h) \<leftarrow> add y y h;
          (r3, h) \<leftarrow> relu a h;
          (r2, h) \<leftarrow> relu r3 h;
          (r1, h) \<leftarrow> relu r2 h;
          (dag, visited) \<leftarrow> build_dag h r1 ([], []);
          h' \<leftarrow> reverse M r1 h;
          Some (dag, data (h' ! r1), grad (h' ! x)) })
   = Some ([0, 0, 1, 0, 0, 1, 2, 3, 4, 5], 12, 8)"
  by code_simp

subsection \<open>C3: the subtraction scenario\<close>

text \<open>
  Claim C3: for the program \<open>a = leaf(-3)\<close>, \<open>b = leaf(2)\<close>, \<open>c = subtract(a, b)\<close>,
  \<open>reverse(c)\<close>, the value of \<open>c\<close> is -5, the gradient of \<open>a\<close> is 1 and the gradient of \<open>b\<close> is
  0: \<open>c\<close> is the sum of \<open>a\<close> and a fresh leaf of value \<open>-b.value\<close>, which has no children
  and receives the gradient in the place of \<open>b\<close>.  The program returns that on every store
  it is started on; the fresh leaf is the struct allocated right after \<open>b\<close>.
\<close>

theorem subtract_scenario:
  "(let (a, h1) = defaultValue (- 3) h; (b, h2) = defaultValue 2 h1 in
     do { (c, h3) \<leftarrow> sub a b h2;
          h4 \<leftarrow> reverse M c h3;
          Some (data (h4 ! c), grad (h4 ! a), grad (h4 ! b),
                children (h4 ! c) = [a, Suc b], data (h4 ! Suc b), children (h4 ! Suc b),
                grad (h4 ! Suc b)) })
   = Some (- 5, 1, 0, True, - 2, [], 1)"
proof -
  let ?n = "\<lambda>g1 g2 g3 g4.
     h @ [\<lparr>data = - 3, grad = g1, children = [], n_children = 0, reverse_ptr = None\<rparr>,
          \<lparr>data = 2, grad = g2, children = [], n_children = 0, reverse_ptr = None\<rparr>,
          \<lparr>data = - 2, grad = g3, children = [], n_children = 0, reverse_ptr = None\<rparr>,
          \<lparr>data = - 5, grad = g4, children = [length h, Suc (Suc (length h))], n_children = 2,
             reverse_ptr = Some AddReverse\<rparr>]"
  have s: "sub (length h) (Suc (length h))
      (h @ [\<lparr>data = - 3, grad = 0, children = [], n_children = 0, reverse_ptr = None\<rparr>,
            \<lparr>data = 2, grad = 0, children = [], n_children = 0, reverse_ptr = None\<rparr>])
     = Some (Suc (Suc (Suc (length h))), ?n 0 0 0 0)"
    by (simp add: sub_valid nth_append)
  have r1: "reverse M (Suc (Suc (Suc (length h)))) (?n 0 0 0 0) = Some (?n 1 0 1 1)"
    by (simp add: reverse_def build_dag_sub[OF refl] deref_def nth_append add_reverse_def
        child_def grad_add_def grad_clip_def MIN_RANGE_def MAX_RANGE_def list_update_append)
  show ?thesis
    by (simp add: defaultValue_def s r1 nth_append)
qed

subsection \<open>C4: accumulation over a shared operand\<close>

text \<open>
  Claim C4: for a leaf \<open>x\<close> and \<open>c = add(x, x)\<close>, after \<open>reverse(c)\<close> the gradient of \<open>x\<close> is
  exactly 2: the two contributions are summed.  This holds for every value of the leaf and
  on every store the program is started on.
\<close>

theorem shared_operand_accumulates:
  "(let (x, h1) = defaultValue v h in
     do { (c, h2) \<leftarrow> add x x h1; h3 \<leftarrow> reverse M c h2; Some (grad (h3 ! x)) }) = Some 2"
proof -
  let ?h2 = "h @ [\<lparr>data = v, grad = 0, children = [], n_children = 0, reverse_ptr = None\<rparr>,
     \<lparr>data = v + v, grad = 0, children = [length h, length h], n_children = 2,
        reverse_ptr = Some AddReverse\<rparr>]"
  have r: "map_option (\<lambda>h3. grad (h3 ! length h)) (reverse M (Suc (length h)) ?h2) = Some 2"
    by (simp add: reverse_def build_dag_add_shared[OF refl] deref_def nth_append
        add_reverse_def child_def grad_add_def grad_clip_def MIN_RANGE_def MAX_RANGE_def
        list_update_append)
  show ?thesis
    using r
    by (simp add: defaultValue_def add_valid nth_append map_option_case split: option.splits)
qed

subsection \<open>C5: relu, forward and backward\<close>



subsection \<open>C6: clipping after every update\<close>

text \<open>
  Claim C6 says that during the reverse pass every single gradient update is followed by a
  clamp of the updated gradient into \<open>[-10, 10]\<close>, and that an Add chain whose raw gradient
  would reach \<open>10\<^sup>6\<close> therefore leaves the gradient 10 on the node it drives.  The reverse
  functions of the source make both of their updates first and call \<^verbatim>\<open>grad_clip\<close> on the two
  operands afterwards.  When both operands are the same node and the two updates have
  opposite signs, that is not the same.  The program is \<open>x = leaf(2)\<close>, \<open>p = pwr(x, x)\<close>,
  \<open>q = mul(p, leaf(-1))\<close>, \<open>s = mul(x, leaf(-10))\<close>, \<open>r = add(q, s)\<close>, \<open>reverse(r)\<close>, from the
  empty store (\<open>pwr_shared_program\<close>).  When \<^verbatim>\<open>pwr_reverse\<close> runs on \<open>p\<close>, the gradient of \<open>x\<close> is -10 and that of \<open>p\<close> is
  -1; the first update adds \<open>2 * 2^1 * (-1) = -4\<close> and the second adds the positive
  \<open>log(2) * 4 + (-1)\<close>.  The source adds both to -10 and clamps \<open>4 * log(2) - 15\<close> to -10.
  With a clamp after each update the -14 would first become -10 and the gradient would end
  at \<open>4 * log(2) - 11\<close>, which is above -10.
\<close>

theorem per_update_clipping_counterexample:
  "(do { (x, r, h) \<leftarrow> pwr_shared_program;
         h' \<leftarrow> reverse libm_real r h;
         k' \<leftarrow> reverse_per_update libm_real r h;
         Some (grad (h' ! x), grad (k' ! x)) }) = Some (- 10, 4 * ln 2 - 11)
   \<and> 4 * ln 2 - 11 \<noteq> (- 10 :: real)"
proof -
  have "4 * ln 2 - 11 \<noteq> (- 10 :: real)"
    using ln2_bounds by simp
  then show ?thesis
    by (simp add: pwr_shared_build pwr_shared_reverse pwr_shared_reverse_per_update)
      (simp add: pwr_shared_store_def)
qed

text \<open>
  Claim C6 as amended: each reverse function makes all of its updates and then calls
  \<^verbatim>\<open>grad_clip\<close> on every operand it updated, so the clamp comes once per operand at the end of
  each rule application, not after each single update and not once at the end of the pass.
  \<^verbatim>\<open>grad_clip\<close> replaces a gradient below -10 by -10 and one above 10 by 10 and leaves every
  other gradient as it is, so a gradient that is a number ends in \<open>[-10, 10]\<close>.  For the Add
  chain \<open>c\<^sub>0 = leaf(1)\<close>, \<open>c\<^sub>k\<^sub>+\<^sub>1 = add(c\<^sub>k, c\<^sub>k)\<close> up to \<open>c\<^sub>2\<^sub>0\<close>, whose root is \<open>2\<^sup>2\<^sup>0 = 1048576\<close>
  times the leaf, the gradient of the leaf after the reverse pass from the root is 10.  The
  theorem gives, for each of the four reverse functions and every store on which it returns,
  the store it returns: the updates in the order of the source, each reading the store the
  previous one left, and then the clamp of the operands.
\<close>

theorem clipping_after_each_rule:
  "(add_reverse c1 h1 = Some h1' \<longrightarrow>
      h1' = (let a = children (h1 ! c1) ! 0; b = children (h1 ! c1) ! 1;
                 k1 = upd_grad a (\<lambda>g. g + grad (h1 ! c1)) h1;
                 k2 = upd_grad b (\<lambda>g. g + grad (k1 ! c1)) k1
             in upd_grad b clamp (upd_grad a clamp k2)))
   \<and> (mul_reverse c2 h2 = Some h2' \<longrightarrow>
      h2' = (let a = children (h2 ! c2) ! 0; b = children (h2 ! c2) ! 1;
                 k1 = upd_grad a (\<lambda>g. g + grad (h2 ! c2) * data (h2 ! b)) h2;
                 k2 = upd_grad b (\<lambda>g. g + grad (k1 ! c2) * data (h2 ! a)) k1
             in upd_grad b clamp (upd_grad a clamp k2)))
   \<and> (pwr_reverse M c3 h3 = Some h3' \<longrightarrow>
      h3' = (let a = children (h3 ! c3) ! 0; b = children (h3 ! c3) ! 1;
                 k1 = upd_grad a
                        (\<lambda>g. g + data (h3 ! b) * libm_pow M (data (h3 ! a)) (data (h3 ! b) - 1)
                                    * grad (h3 ! c3)) h3;
                 k2 = (if data (h3 ! b) > 0
                       then upd_grad b
                              (\<lambda>g. g + (libm_log M (data (h3 ! a)) * data (h3 ! c3)
                                          + grad (k1 ! c3))) k1
                       else k1)
             in upd_grad b clamp (upd_grad a clamp k2)))
   \<and> (relu_reverse c4 h4 = Some h4' \<longrightarrow>
      h4' = (let a = children (h4 ! c4) ! 0
             in upd_grad a clamp
                  (upd_grad a (\<lambda>g. g + (if data (h4 ! a) > 0 then grad (h4 ! c4) else 0)) h4)))
   \<and> clamp g = (if g < - 10 then - 10 else if 10 < g then 10 else g)
   \<and> - 10 \<le> clamp g \<and> clamp g \<le> 10
   \<and> (let (x, h0) = defaultValue 1 [] in
        do { (r, k1) \<leftarrow> add_chain 20 x h0;
             k2 \<leftarrow> reverse M r k1;
             Some (data (k1 ! r), grad (k2 ! x)) }) = Some (1048576, 10)"
proof -
  have d: "defaultValue 1 [] = (0, map chain_node [0..<Suc 0])"
    by (simp add: defaultValue_def chain_node_def)
  have v: "data (map chain_node [0..<21] ! 20) = 1048576"
    by (simp add: chain_node_def del: upt_Suc)
  obtain k2 where r: "reverse M 20 (map chain_node [0..<21]) = Some k2"
    and g: "grad (k2 ! 0) = 10"
    using chain_reverse[of M] by (auto simp: map_option_case split: option.splits)
  have chain: "(let (x, h0) = defaultValue 1 [] in
        do { (r, k1) \<leftarrow> add_chain 20 x h0;
             k2 \<leftarrow> reverse M r k1;
             Some (data (k1 ! r), grad (k2 ! x)) }) = Some (1048576, 10)"
    using add_chain_builds[of 20 0] v r g unfolding d by (simp del: upt_Suc)
  have cl: "clamp g = (if g < - 10 then - 10 else if 10 < g then 10 else g)
      \<and> - 10 \<le> clamp g \<and> clamp g \<le> 10"
    by (simp add: clamp_def MIN_RANGE_def MAX_RANGE_def)
  have a: "add_reverse c1 h1 = Some h1' \<longrightarrow>
      h1' = (let a = children (h1 ! c1) ! 0; b = children (h1 ! c1) ! 1;
                 k1 = upd_grad a (\<lambda>g. g + grad (h1 ! c1)) h1;
                 k2 = upd_grad b (\<lambda>g. g + grad (k1 ! c1)) k1
             in upd_grad b clamp (upd_grad a clamp k2))"
    by (simp add: add_reverse_Some)
  have m: "mul_reverse c2 h2 = Some h2' \<longrightarrow>
      h2' = (let a = children (h2 ! c2) ! 0; b = children (h2 ! c2) ! 1;
                 k1 = upd_grad a (\<lambda>g. g + grad (h2 ! c2) * data (h2 ! b)) h2;
                 k2 = upd_grad b (\<lambda>g. g + grad (k1 ! c2) * data (h2 ! a)) k1
             in upd_grad b clamp (upd_grad a clamp k2))"
    by (simp add: mul_reverse_Some)
  have p: "pwr_reverse M c3 h3 = Some h3' \<longrightarrow>
      h3' = (let a = children (h3 ! c3) ! 0; b = children (h3 ! c3) ! 1;
                 k1 = upd_grad a
                        (\<lambda>g. g + data (h3 ! b) * libm_pow M (data (h3 ! a)) (data (h3 ! b) - 1)
                                    * grad (h3 ! c3)) h3;
                 k2 = (if data (h3 ! b) > 0
                       then upd_grad b
                              (\<lambda>g. g + (libm_log M (data (h3 ! a)) * data (h3 ! c3)
                                          + grad (k1 ! c3))) k1
                       else k1)
             in upd_grad b clamp (upd_grad a clamp k2))"
    by (simp add: pwr_reverse_Some)
  have u: "relu_reverse c4 h4 = Some h4' \<longrightarrow>
      h4' = (let a = children (h4 ! c4) ! 0
             in upd_grad a clamp
                  (upd_grad a (\<lambda>g. g + (if data (h4 ! a) > 0 then grad (h4 ! c4) else 0)) h4))"
    by (simp add: relu_reverse_Some)
  from a m p u cl chain show ?thesis by blast
qed

theorem clipping_after_each_rule_witness:
  "(let l = \<lambda>v g. \<lparr>data = v, grad = g, children = [], n_children = 0, reverse_ptr = None\<rparr>;
        n = \<lambda>v g cs f. \<lparr>data = v, grad = g, children = cs, n_children = length cs,
                          reverse_ptr = Some f\<rparr>
    in add_reverse 2 [l 1 9, l 2 (- 3), n 3 5 [0, 1] AddReverse]
         = Some [l 1 10, l 2 2, n 3 5 [0, 1] AddReverse]
       \<and> mul_reverse 2 [l 3 0, l 4 (- 8), n 12 1 [0, 1] MulReverse]
         = Some [l 3 4, l 4 (- 5), n 12 1 [0, 1] MulReverse]
       \<and> pwr_reverse libm_real 2 [l 1 9, l 2 0, n 1 5 [0, 1] PwrReverse]
         = Some [l 1 10, l 2 5, n 1 5 [0, 1] PwrReverse]
       \<and> relu_reverse 1 [l 2 9, n 2 5 [0] ReluReverse]
         = Some [l 2 10, n 2 5 [0] ReluReverse]
       \<and> clamp 14 = 10)"
proof -
  let ?l = "\<lambda>v g. \<lparr>data = v, grad = g, children = [], n_children = 0, reverse_ptr = None\<rparr>"
  let ?n = "\<lambda>v g cs f. \<lparr>data = v, grad = g, children = cs, n_children = length cs,
                          reverse_ptr = Some f\<rparr>"
  have a: "add_reverse 2 [?l 1 9, ?l 2 (- 3), ?n 3 5 [0, 1] AddReverse]
         = Some [?l 1 10, ?l 2 2, ?n 3 5 [0, 1] AddReverse]"
    by (simp add: add_reverse_def child_def deref_def grad_add_def grad_clip_def
        MIN_RANGE_def MAX_RANGE_def)
  have m: "mul_reverse 2 [?l 3 0, ?l 4 (- 8), ?n 12 1 [0, 1] MulReverse]
         = Some [?l 3 4, ?l 4 (- 5), ?n 12 1 [0, 1] MulReverse]"
    by (simp add: mul_reverse_def child_def deref_def grad_add_def grad_clip_def
        MIN_RANGE_def MAX_RANGE_def)
  have p: "pwr_reverse libm_real 2 [?l 1 9, ?l 2 0, ?n 1 5 [0, 1] PwrReverse]
         = Some [?l 1 10, ?l 2 5, ?n 1 5 [0, 1] PwrReverse]"
    by (simp add: pwr_reverse_def child_def deref_def grad_add_def grad_clip_def
        MIN_RANGE_def MAX_RANGE_def libm_real_simps)
  have u: "relu_reverse 1 [?l 2 9, ?n 2 5 [0] ReluReverse]
         = Some [?l 2 10, ?n 2 5 [0] ReluReverse]"
    by (simp add: relu_reverse_def child_def deref_def grad_add_def grad_clip_def
        MIN_RANGE_def MAX_RANGE_def)
  note t = clipping_after_each_rule[of
      2 "[?l 1 9, ?l 2 (- 3), ?n 3 5 [0, 1] AddReverse]"
        "[?l 1 10, ?l 2 2, ?n 3 5 [0, 1] AddReverse]"
      2 "[?l 3 0, ?l 4 (- 8), ?n 12 1 [0, 1] MulReverse]"
        "[?l 3 4, ?l 4 (- 5), ?n 12 1 [0, 1] MulReverse]"
      libm_real
      2 "[?l 1 9, ?l 2 0, ?n 1 5 [0, 1] PwrReverse]"
        "[?l 1 10, ?l 2 5, ?n 1 5 [0, 1] PwrReverse]"
      1 "[?l 2 9, ?n 2 5 [0] ReluReverse]"
        "[?l 2 10, ?n 2 5 [0] ReluReverse]"
      14]
  from t a m p u show ?thesis
    unfolding Let_def by simp
qed

subsection \<open>C7: division is multiplication by a power\<close>

text \<open>
  Claim C7: \<open>divide(a, b)\<close> is exactly \<open>multiply(a, power(b, leaf(-1)))\<close>: the node it returns
  has the same forward value \<open>a.value * b.value^(-1)\<close>, the same operands and the same
  behaviour in the reverse pass as the node built by \<^verbatim>\<open>mul\<close> and \<^verbatim>\<open>pwr\<close> with a fresh leaf
  of value -1 as the exponent.  \<^verbatim>\<open>divide\<close> and that composition return the same address and
  the same store on every input, so nothing that is run afterwards tells them apart; for
  allocated operands the store gains three structs: the leaf -1, the power node over \<open>b\<close> and
  the leaf with the reverse function of power, and the product node over \<open>a\<close> and the power
  node with the reverse function of multiplication.
\<close>

theorem divide_is_mul_pwr:
  "divide_op M a b h = divide_spec M a b h
   \<and> (a < length h \<and> b < length h \<longrightarrow>
        divide_op M a b h = Some (length h + 2,
          h @ [\<lparr>data = - 1, grad = 0, children = [], n_children = 0, reverse_ptr = None\<rparr>,
               \<lparr>data = libm_powf M (data (h ! b)) (- 1), grad = 0,
                  children = [b, length h], n_children = 2, reverse_ptr = Some PwrReverse\<rparr>,
               \<lparr>data = data (h ! a) * libm_powf M (data (h ! b)) (- 1), grad = 0,
                  children = [a, length h + 1], n_children = 2,
                  reverse_ptr = Some MulReverse\<rparr>]))"
proof -
  have e: "divide_op M a b h = divide_spec M a b h"
    by (simp add: divide_op_def divide_spec_def split: option.splits prod.splits)
  have v: "a < length h \<and> b < length h \<longrightarrow>
        divide_op M a b h = Some (length h + 2,
          h @ [\<lparr>data = - 1, grad = 0, children = [], n_children = 0, reverse_ptr = None\<rparr>,
               \<lparr>data = libm_powf M (data (h ! b)) (- 1), grad = 0,
                  children = [b, length h], n_children = 2, reverse_ptr = Some PwrReverse\<rparr>,
               \<lparr>data = data (h ! a) * libm_powf M (data (h ! b)) (- 1), grad = 0,
                  children = [a, length h + 1], n_children = 2,
                  reverse_ptr = Some MulReverse\<rparr>])"
    by (simp add: divide_valid)
  from e v show ?thesis by (rule conjI)
qed

theorem divide_is_mul_pwr_witness:
  "(0::nat) < length [\<lparr>data = 6, grad = 0, children = [], n_children = 0, reverse_ptr = None\<rparr>,
                      \<lparr>data = 3, grad = 0, children = [], n_children = 0, reverse_ptr = None\<rparr>]
   \<and> (1::nat) < length [\<lparr>data = 6, grad = 0, children = [], n_children = 0, reverse_ptr = None\<rparr>,
                      \<lparr>data = 3, grad = 0, children = [], n_children = 0, reverse_ptr = None\<rparr>]
   \<and> divide_op libm_real 0 1
        [\<lparr>data = 6, grad = 0, children = [], n_children = 0, reverse_ptr = None\<rparr>,
         \<lparr>data = 3, grad = 0, children = [], n_children = 0, reverse_ptr = None\<rparr>]
      = Some (4,
        [\<lparr>data = 6, grad = 0, children = [], n_children = 0, reverse_ptr = None\<rparr>,
         \<lparr>data = 3, grad = 0, children = [], n_children = 0, reverse_ptr = None\<rparr>,
         \<lparr>data = - 1, grad = 0, children = [], n_children = 0, reverse_ptr = None\<rparr>,
         \<lparr>data = 1 / 3, grad = 0, children = [1, 2], n_children = 2,
            reverse_ptr = Some PwrReverse\<rparr>,
         \<lparr>data = 2, grad = 0, children = [0, 3], n_children = 2,
            reverse_ptr = Some MulReverse\<rparr>])"
proof -
  let ?h = "[\<lparr>data = 6, grad = 0, children = [], n_children = 0, reverse_ptr = None\<rparr>,
             \<lparr>data = 3, grad = 0, children = [], n_children = 0, reverse_ptr = None\<rparr>]"
  have v: "(0::nat) < length ?h \<and> (1::nat) < length ?h" by simp
  note t = divide_is_mul_pwr[of libm_real 0 1 ?h, THEN conjunct2, rule_format, OF v]
  from t v show ?thesis by (simp add: libm_real_simps)
qed

subsection \<open>C8: gradients are not reset between reverse passes\<close>


subsection \<open>C9: the forward graph is never changed\<close>

text \<open>
  Claim C9: no call of \<^verbatim>\<open>add\<close>, \<^verbatim>\<open>sub\<close>, \<^verbatim>\<open>mul\<close>, \<^verbatim>\<open>pwr\<close>, \<^verbatim>\<open>divide\<close>, \<^verbatim>\<open>relu\<close> or
  \<^verbatim>\<open>reverse\<close> changes the children pointer or \<^verbatim>\<open>n_children\<close> of a node created before
  the call; an operator leaves every field of its operands as it was; only the reverse pass
  writes to \<^verbatim>\<open>grad\<close> fields.  An operator that returns only appends to the store: the
  structs allocated before the call, the operands among them, are the same after it, field
  by field.  A reverse pass that returns keeps the number of structs and their \<^verbatim>\<open>children\<close>,
  \<^verbatim>\<open>n_children\<close>, \<^verbatim>\<open>data\<close> and \<^verbatim>\<open>reverse\<close> fields.
\<close>

theorem forward_graph_immutable:
  "(add a b h = Some (c1, h1) \<longrightarrow> take (length h) h1 = h) \<and>
   (sub a b h = Some (c2, h2) \<longrightarrow> take (length h) h2 = h) \<and>
   (mul a b h = Some (c3, h3) \<longrightarrow> take (length h) h3 = h) \<and>
   (pwr M a b h = Some (c4, h4) \<longrightarrow> take (length h) h4 = h) \<and>
   (divide_op M a b h = Some (c5, h5) \<longrightarrow> take (length h) h5 = h) \<and>
   (relu a h = Some (c6, h6) \<longrightarrow> take (length h) h6 = h) \<and>
   (reverse M rt h = Some h7 \<longrightarrow>
      length h7 = length h \<and>
      map children h7 = map children h \<and> map n_children h7 = map n_children h \<and>
      map data h7 = map data h \<and> map reverse_ptr h7 = map reverse_ptr h)"
proof -
  have r: "reverse M rt h = Some h7 \<Longrightarrow>
      length h7 = length h \<and>
      map children h7 = map children h \<and> map n_children h7 = map n_children h \<and>
      map data h7 = map data h \<and> map reverse_ptr h7 = map reverse_ptr h"
  proof -
    assume "reverse M rt h = Some h7"
    then have s: "skeleton h7 = skeleton h" by (rule reverse_skeleton)
    show ?thesis
      using skeleton_length[OF s] skeleton_fields[OF s]
      by (simp add: list_eq_iff_nth_eq)
  qed
  have d: "divide_op M a b h = Some (c5, h5) \<Longrightarrow> take (length h) h5 = h"
    by (drule divide_Some_prefix) auto
  have s: "sub a b h = Some (c2, h2) \<Longrightarrow> take (length h) h2 = h"
    by (drule sub_Some_prefix) auto
  from r d s show ?thesis
    by (auto simp: add_Some mul_Some pwr_Some relu_Some)
qed

theorem forward_graph_immutable_witness:
  "(let h = [\<lparr>data = 6, grad = 0, children = [], n_children = 0, reverse_ptr = None\<rparr>,
             \<lparr>data = 3, grad = 0, children = [], n_children = 0, reverse_ptr = None\<rparr>];
        l = \<lambda>v. \<lparr>data = v, grad = 0, children = [], n_children = 0, reverse_ptr = None\<rparr>;
        n = \<lambda>v cs f. \<lparr>data = v, grad = 0, children = cs, n_children = length cs,
                        reverse_ptr = Some f\<rparr>
    in add 0 1 h = Some (2, h @ [n 9 [0, 1] AddReverse])
       \<and> take (length h) (h @ [n 9 [0, 1] AddReverse]) = h
       \<and> sub 0 1 h = Some (3, h @ [l (- 3), n 3 [0, 2] AddReverse])
       \<and> take (length h) (h @ [l (- 3), n 3 [0, 2] AddReverse]) = h
       \<and> mul 0 1 h = Some (2, h @ [n 18 [0, 1] MulReverse])
       \<and> take (length h) (h @ [n 18 [0, 1] MulReverse]) = h
       \<and> pwr libm_real 0 1 h = Some (2, h @ [n 216 [0, 1] PwrReverse])
       \<and> take (length h) (h @ [n 216 [0, 1] PwrReverse]) = h
       \<and> divide_op libm_real 0 1 h
           = Some (4, h @ [l (- 1), n (1 / 3) [1, 2] PwrReverse, n 2 [0, 3] MulReverse])
       \<and> take (length h) (h @ [l (- 1), n (1 / 3) [1, 2] PwrReverse, n 2 [0, 3] MulReverse]) = h
       \<and> relu 0 h = Some (2, h @ [n 6 [0] ReluReverse])
       \<and> take (length h) (h @ [n 6 [0] ReluReverse]) = h
       \<and> reverse libm_real 2 (h @ [n 9 [0, 1] AddReverse])
           = Some [(l 6)\<lparr>grad := 1\<rparr>, (l 3)\<lparr>grad := 1\<rparr>, (n 9 [0, 1] AddReverse)\<lparr>grad := 1\<rparr>]
       \<and> map children [(l 6)\<lparr>grad := 1\<rparr>, (l 3)\<lparr>grad := 1\<rparr>, (n 9 [0, 1] AddReverse)\<lparr>grad := 1\<rparr>]
           = map children (h @ [n 9 [0, 1] AddReverse]))"
proof -
  let ?l = "\<lambda>v. \<lparr>data = v, grad = 0, children = [], n_children = 0, reverse_ptr = None\<rparr>"
  let ?n = "\<lambda>v cs f. \<lparr>data = v, grad = 0, children = cs, n_children = length cs,
                        reverse_ptr = Some f\<rparr>"
  let ?h = "[?l (6::real), ?l 3]"
  let ?g = "?h @ [?n 9 [0, 1] AddReverse]"
  let ?g' = "[(?l 6)\<lparr>grad := 1\<rparr>, (?l 3)\<lparr>grad := 1\<rparr>, (?n 9 [0, 1] AddReverse)\<lparr>grad := 1\<rparr>]"
  have 1: "add 0 1 ?h = Some (2, ?g)"
    by (simp add: add_valid)
  have 2: "sub 0 1 ?h = Some (3, ?h @ [?l (- 3), ?n 3 [0, 2] AddReverse])"
    by (simp add: sub_valid)
  have 3: "mul 0 1 ?h = Some (2, ?h @ [?n 18 [0, 1] MulReverse])"
    by (simp add: mul_valid)
  have 4: "pwr libm_real 0 1 ?h = Some (2, ?h @ [?n 216 [0, 1] PwrReverse])"
    by (simp add: pwr_valid libm_real_simps)
  have 5: "divide_op libm_real 0 1 ?h
      = Some (4, ?h @ [?l (- 1), ?n (1 / 3) [1, 2] PwrReverse, ?n 2 [0, 3] MulReverse])"
    by (simp add: divide_valid libm_real_simps)
  have 6: "relu 0 ?h = Some (2, ?h @ [?n 6 [0] ReluReverse])"
    by (simp add: relu_valid)
  have b: "build_dag ?g (Suc (Suc 0)) ([], [])
      = Some ([0, Suc 0, Suc (Suc 0)], [Suc (Suc 0), 0, Suc 0])"
    by (simp add: build_dag.simps build_dag_loop.simps MAX_DAG_SIZE_def)
  have 7: "reverse libm_real 2 ?g = Some ?g'"
    using b
    by (simp add: reverse_def add_reverse_def child_def deref_def grad_add_def grad_clip_def
        MIN_RANGE_def MAX_RANGE_def numeral_2_eq_2)
  note t = forward_graph_immutable[of 0 1 ?h 2 ?g
      3 "?h @ [?l (- 3), ?n 3 [0, 2] AddReverse]"
      2 "?h @ [?n 18 [0, 1] MulReverse]"
      libm_real 2 "?h @ [?n 216 [0, 1] PwrReverse]"
      4 "?h @ [?l (- 1), ?n (1 / 3) [1, 2] PwrReverse, ?n 2 [0, 3] MulReverse]"
      2 "?h @ [?n 6 [0] ReluReverse]"]
  note u = forward_graph_immutable[of _ _ ?g _ _ _ _ _ _ libm_real _ _ _ _ _ _ 2 ?g']
  from t u 1 2 3 4 5 6 7 show ?thesis
    unfolding Let_def by simp
qed

subsection \<open>C10: the gradient of the root\<close>

text \<open>
  Claim C10: after \<open>reverse(root)\<close> the gradient of the root is exactly 1: the seed
  overwrites whatever was there, and no gradient rule adds to the root or clips it, since the
  root of an acyclic graph is not an operand of a node reachable from it.  On every
  well-formed store (the operators build no other), and whatever the gradients before the
  call, a reverse pass that returns leaves the gradient 1 at the root.
\<close>

theorem reverse_seeds_root:
  assumes "wf_heap h" "reverse M rt h = Some h'"
  shows "grad (h' ! rt) = 1"
proof -
  from assms(2) obtain dag visited where
    b: "build_dag h rt ([], []) = Some (dag, visited)" and
    v: "rt < length h" and
    r: "reverse_loop M (rev dag) (upd_grad rt (\<lambda>_. 1) h) = Some h'"
    by (auto simp: reverse_def deref_Some bind_eq_Some_conv upd_grad_def)
  from build_dag_bound(1)[OF b assms(1)] have "\<forall>v \<in> set (rev dag). v \<le> rt" by auto
  moreover have "wf_heap (upd_grad rt (\<lambda>_. 1) h)"
    using wf_heap_skeleton[of "upd_grad rt (\<lambda>_. 1) h" h] assms(1) by simp
  ultimately have "h' ! rt = upd_grad rt (\<lambda>_. 1) h ! rt"
    using reverse_loop_keeps_root[OF r] by blast
  with v show ?thesis by (simp add: nth_upd_grad)
qed

theorem reverse_seeds_root_witness:
  "wf_heap
     [\<lparr>data = 1, grad = 4, children = [], n_children = 0, reverse_ptr = None\<rparr>,
      \<lparr>data = 2, grad = 7, children = [0, 0], n_children = 2, reverse_ptr = Some AddReverse\<rparr>]
   \<and> reverse libm_real 1
     [\<lparr>data = 1, grad = 4, children = [], n_children = 0, reverse_ptr = None\<rparr>,
      \<lparr>data = 2, grad = 7, children = [0, 0], n_children = 2, reverse_ptr = Some AddReverse\<rparr>]
     = Some
     [\<lparr>data = 1, grad = 6, children = [], n_children = 0, reverse_ptr = None\<rparr>,
      \<lparr>data = 2, grad = 1, children = [0, 0], n_children = 2, reverse_ptr = Some AddReverse\<rparr>]
   \<and> grad ([\<lparr>data = 1, grad = 6, children = [], n_children = 0, reverse_ptr = None\<rparr>,
      \<lparr>data = 2, grad = 1, children = [0, 0], n_children = 2,
         reverse_ptr = Some AddReverse\<rparr>] ! 1) = 1"
proof -
  let ?h = "[\<lparr>data = 1, grad = 4, children = [], n_children = 0, reverse_ptr = None\<rparr>,
      \<lparr>data = 2, grad = 7, children = [0, 0], n_children = 2, reverse_ptr = Some AddReverse\<rparr>]"
  let ?h' = "[\<lparr>data = 1, grad = 6, children = [], n_children = 0, reverse_ptr = None\<rparr>,
      \<lparr>data = 2, grad = 1, children = [0, 0], n_children = 2, reverse_ptr = Some AddReverse\<rparr>]"
  have w: "wf_heap ?h"
    by (simp add: wf_heap_def enumerate_simps)
  have b: "build_dag ?h (Suc 0) ([], []) = Some ([0, 0, Suc 0], [Suc 0, 0, 0])"
    by (simp add: build_dag.simps build_dag_loop.simps MAX_DAG_SIZE_def)
  have r: "reverse libm_real 1 ?h = Some ?h'"
    by (simp add: reverse_def b add_reverse_def child_def deref_def grad_add_def grad_clip_def
        MIN_RANGE_def MAX_RANGE_def)
  from reverse_seeds_root[OF w r] w r show ?thesis by simp
qed

end
